theory Spec2Isabelle
  imports Complex_Main "HOL-Library.State_Monad"
begin

section \<open>JavaScript strings\<close>

text \<open>
  A JavaScript string is a sequence of UTF-16 code units, and \<open>length\<close>, \<open>trim\<close> and the
  regular expressions of the router all work on code units. A code unit is modelled by its
  number, so a string is a list of naturals; \<open>js\<close> turns an ASCII literal into such a list.
  Code units are below 65536; the theorems below hold for every list of naturals.
\<close>

type_synonym jsstring = "nat list"

definition js :: "string \<Rightarrow> jsstring" where
  "js cs = map of_char cs"

text \<open>ECMAScript \<open>LineTerminator\<close>: LF, CR, LS, PS.\<close>

definition is_line_terminator :: "nat \<Rightarrow> bool" where
  "is_line_terminator c \<longleftrightarrow> c = 10 \<or> c = 13 \<or> c = 8232 \<or> c = 8233"

text \<open>
  ECMAScript \<open>WhiteSpace\<close> and \<open>LineTerminator\<close> together: what \<open>\s\<close> matches and what
  \<open>String.prototype.trim\<close> removes (TAB, LF, VT, FF, CR, SP, NBSP, the Unicode space
  separators, LS, PS and the byte order mark).
\<close>

definition is_space :: "nat \<Rightarrow> bool" where
  "is_space c \<longleftrightarrow> c = 32 \<or> (9 \<le> c \<and> c \<le> 13) \<or> c = 160 \<or> c = 5760 \<or>
     (8192 \<le> c \<and> c \<le> 8202) \<or> c = 8232 \<or> c = 8233 \<or> c = 8239 \<or> c = 8287 \<or>
     c = 12288 \<or> c = 65279"

definition is_digit :: "nat \<Rightarrow> bool" where
  "is_digit c \<longleftrightarrow> 48 \<le> c \<and> c \<le> 57"

text \<open>The word characters of \<open>\b\<close>: letters, digits and the underscore, ASCII only.\<close>

definition is_word_char :: "nat \<Rightarrow> bool" where
  "is_word_char c \<longleftrightarrow>
     (97 \<le> c \<and> c \<le> 122) \<or> (65 \<le> c \<and> c \<le> 90) \<or> is_digit c \<or> c = 95"

text \<open>\<open>s.trim()\<close>\<close>

definition trim :: "jsstring \<Rightarrow> jsstring" where
  "trim s = rev (dropWhile is_space (rev (dropWhile is_space s)))"

text \<open>\<open>s.endsWith(t)\<close>\<close>

definition endsWith :: "jsstring \<Rightarrow> jsstring \<Rightarrow> bool" where
  "endsWith s t \<longleftrightarrow> length t \<le> length s \<and> drop (length s - length t) s = t"

text \<open>\<open>words.join(' ')\<close>\<close>

fun join :: "jsstring list \<Rightarrow> jsstring" where
  "join [] = []"
| "join [w] = w"
| "join (w # ws) = w @ 32 # join ws"

section \<open>Regular expressions\<close>

text \<open>
  The patterns of the router use literal characters, the classes \<open>\s\<close>, \<open>\S\<close>, \<open>\d\<close>,
  \<open>.\<close> and two bracket classes, sequence, alternation, the greedy quantifiers \<open>*\<close>, \<open>+\<close>,
  \<open>?\<close>, the lazy \<open>+?\<close>, the counted \<open>{n}\<close>, capturing groups, and the assertions \<open>^\<close>,
  \<open>$\<close> and \<open>\b\<close>. A non-capturing group \<open>(?:...)\<close> is plain nesting of the syntax tree.
\<close>

datatype cset = CChar nat | CDigit | CSpace | CNotSpace | CDot | CUnion cset cset

fun in_cset :: "cset \<Rightarrow> nat \<Rightarrow> bool" where
  "in_cset (CChar p) c = (c = p)"
| "in_cset CDigit c = is_digit c"
| "in_cset CSpace c = is_space c"
| "in_cset CNotSpace c = (\<not> is_space c)"
| "in_cset CDot c = (\<not> is_line_terminator c)"
| "in_cset (CUnion a b) c = (in_cset a c \<or> in_cset b c)"

datatype re =
    Chr nat | Set cset | Eps
  | Seq re re | Alt re re
  | Star re | Plus re | Opt re | LazyPlus re | Rep nat re
  | Grp nat re
  | Bol | Eol | WordB

text \<open>
  The matcher state of ECMAScript: the input with the current end index (here the code
  units before the index, last one first, and the code units that follow) and the captures.
\<close>

record mstate =
  behind :: jsstring
  ahead :: jsstring
  captures :: "nat \<Rightarrow> jsstring option"

type_synonym cont = "mstate \<Rightarrow> mstate option"

definition advance :: "mstate \<Rightarrow> mstate" where
  "advance x = (case ahead x of [] \<Rightarrow> x
     | c # cs \<Rightarrow> x\<lparr>behind := c # behind x, ahead := cs\<rparr>)"

text \<open>
  \<open>Canonicalize\<close> for the flag \<open>i\<close> (without \<open>u\<close>) compares upper-cased code units, and never
  maps a code unit from 128 on to one below 128. Every literal character of the router's
  patterns is ASCII, so upper-casing the ASCII letters decides every comparison.
\<close>

definition canonicalize :: "nat \<Rightarrow> nat" where
  "canonicalize c = (if 97 \<le> c \<and> c \<le> 122 then c - 32 else c)"

definition chr_matches :: "bool \<Rightarrow> nat \<Rightarrow> nat \<Rightarrow> bool" where
  "chr_matches ic p c \<longleftrightarrow> (if ic then canonicalize c = canonicalize p else c = p)"

text \<open>The text between two states of one match: what a capture holds.\<close>

definition between :: "mstate \<Rightarrow> mstate \<Rightarrow> jsstring" where
  "between x y = take (length (ahead x) - length (ahead y)) (ahead x)"

definition is_word_boundary :: "mstate \<Rightarrow> bool" where
  "is_word_boundary x \<longleftrightarrow>
     (case behind x of [] \<Rightarrow> False | a # _ \<Rightarrow> is_word_char a) \<noteq>
     (case ahead x of [] \<Rightarrow> False | b # _ \<Rightarrow> is_word_char b)"

fun groups :: "re \<Rightarrow> nat list" where
  "groups (Seq a b) = groups a @ groups b"
| "groups (Alt a b) = groups a @ groups b"
| "groups (Star r) = groups r"
| "groups (Plus r) = groups r"
| "groups (Opt r) = groups r"
| "groups (LazyPlus r) = groups r"
| "groups (Rep n r) = groups r"
| "groups (Grp i r) = i # groups r"
| "groups _ = []"

text \<open>Every iteration of a quantified atom starts with the atom's captures undefined.\<close>

definition clear :: "nat list \<Rightarrow> mstate \<Rightarrow> mstate" where
  "clear gs x = x\<lparr>captures := (\<lambda>i. if i \<in> set gs then None else captures x i)\<rparr>"

text \<open>An iteration of a quantified atom that consumes nothing is rejected.\<close>

definition progress :: "mstate \<Rightarrow> cont \<Rightarrow> cont" where
  "progress x k y = (if length (ahead y) < length (ahead x) then k y else None)"

text \<open>
  \<open>RepeatMatcher\<close> with minimum 0. The matcher of the atom is \<open>f\<close>, and \<open>n\<close> bounds the
  number of iterations: 1 for \<open>?\<close>; for \<open>*\<close> the number of code units that are left, which
  is never reached before the input ends, since every iteration consumes at least one.
  The greedy form tries one more iteration before the continuation, the lazy form the
  continuation first.
\<close>

primrec greedy :: "(cont \<Rightarrow> cont) \<Rightarrow> nat list \<Rightarrow> nat \<Rightarrow> cont \<Rightarrow> cont" where
  "greedy f gs 0 k x = k x"
| "greedy f gs (Suc n) k x =
     (case f (progress x (greedy f gs n k)) (clear gs x) of
        Some y \<Rightarrow> Some y
      | None \<Rightarrow> k x)"

primrec lazy :: "(cont \<Rightarrow> cont) \<Rightarrow> nat list \<Rightarrow> nat \<Rightarrow> cont \<Rightarrow> cont" where
  "lazy f gs 0 k x = k x"
| "lazy f gs (Suc n) k x =
     (case k x of
        Some y \<Rightarrow> Some y
      | None \<Rightarrow> f (progress x (lazy f gs n k)) (clear gs x))"

definition greedy_star :: "(cont \<Rightarrow> cont) \<Rightarrow> nat list \<Rightarrow> cont \<Rightarrow> cont" where
  "greedy_star f gs k x = greedy f gs (length (ahead x)) k x"

definition lazy_star :: "(cont \<Rightarrow> cont) \<Rightarrow> nat list \<Rightarrow> cont \<Rightarrow> cont" where
  "lazy_star f gs k x = lazy f gs (length (ahead x)) k x"

primrec exactly :: "(cont \<Rightarrow> cont) \<Rightarrow> nat \<Rightarrow> cont \<Rightarrow> cont" where
  "exactly f 0 k = k"
| "exactly f (Suc n) k = f (exactly f n k)"

text \<open>The end of a capturing group that started at the state \<open>x\<close>.\<close>

definition close_group :: "nat \<Rightarrow> mstate \<Rightarrow> cont \<Rightarrow> cont" where
  "close_group i x k y = k (y\<lparr>captures := (captures y)(i \<mapsto> between x y)\<rparr>)"

text \<open>
  The backtracking matcher of ECMAScript, in its continuation-passing form: \<open>m r ic k x\<close>
  matches \<open>r\<close> at the state \<open>x\<close> and hands every candidate end state to the continuation
  \<open>k\<close>, in the order of priority, until \<open>k\<close> succeeds; \<open>ic\<close> is the flag \<open>i\<close>.
\<close>

primrec m :: "re \<Rightarrow> bool \<Rightarrow> cont \<Rightarrow> cont" where
  "m (Chr p) ic k x =
     (case ahead x of
        [] \<Rightarrow> None
      | c # _ \<Rightarrow> if chr_matches ic p c then k (advance x) else None)"
| "m (Set cs) ic k x =
     (case ahead x of
        [] \<Rightarrow> None
      | c # _ \<Rightarrow> if in_cset cs c then k (advance x) else None)"
| "m Eps ic k x = k x"
| "m (Seq a b) ic k x = m a ic (m b ic k) x"
| "m (Alt a b) ic k x = (case m a ic k x of Some y \<Rightarrow> Some y | None \<Rightarrow> m b ic k x)"
| "m (Star r) ic k x = greedy_star (m r ic) (groups r) k x"
| "m (Plus r) ic k x = m r ic (greedy_star (m r ic) (groups r) k) (clear (groups r) x)"
| "m (Opt r) ic k x = greedy (m r ic) (groups r) (Suc 0) k x"
| "m (LazyPlus r) ic k x = m r ic (lazy_star (m r ic) (groups r) k) (clear (groups r) x)"
| "m (Rep n r) ic k x = exactly (m r ic) n k x"
| "m (Grp i r) ic k x = m r ic (close_group i x k) x"
| "m Bol ic k x = (if behind x = [] then k x else None)"
| "m Eol ic k x = (if ahead x = [] then k x else None)"
| "m WordB ic k x = (if is_word_boundary x then k x else None)"

text \<open>Notation for writing the patterns down as they are in the source.\<close>

definition lit :: "string \<Rightarrow> re" where
  "lit cs = foldr (\<lambda>c r. Seq (Chr (of_char c)) r) cs Eps"

fun alts :: "re list \<Rightarrow> re" where
  "alts [] = Eps"
| "alts [r] = r"
| "alts (r # rs) = Alt r (alts rs)"

definition seqs :: "re list \<Rightarrow> re" where
  "seqs rs = foldr Seq rs Eps"

text \<open>A regular expression literal: the pattern and its flags \<open>i\<close> and \<open>g\<close>.\<close>

record regexp =
  pattern :: re
  ignoreCase :: bool
  global :: bool

definition regex :: "re \<Rightarrow> regexp" where
  "regex r = \<lparr>pattern = r, ignoreCase = False, global = False\<rparr>"

definition regex_i :: "re \<Rightarrow> regexp" where
  "regex_i r = \<lparr>pattern = r, ignoreCase = True, global = False\<rparr>"

definition regex_g :: "re \<Rightarrow> regexp" where
  "regex_g r = \<lparr>pattern = r, ignoreCase = False, global = True\<rparr>"

definition regex_gi :: "re \<Rightarrow> regexp" where
  "regex_gi r = \<lparr>pattern = r, ignoreCase = True, global = True\<rparr>"

text \<open>
  \<open>RegExpBuiltinExec\<close> without the flags \<open>g\<close> and \<open>y\<close>: the first index, from the start
  index on, at which the pattern matches. The result is the state where the match starts and
  the state where it ends.
\<close>

definition match_at :: "regexp \<Rightarrow> jsstring \<Rightarrow> jsstring \<Rightarrow> mstate option" where
  "match_at R pre cs =
     m (pattern R) (ignoreCase R) Some \<lparr>behind = pre, ahead = cs, captures = (\<lambda>_. None)\<rparr>"

fun search :: "regexp \<Rightarrow> jsstring \<Rightarrow> jsstring \<Rightarrow> (mstate \<times> mstate) option" where
  "search R pre [] =
     (case match_at R pre [] of
        Some y \<Rightarrow> Some (\<lparr>behind = pre, ahead = [], captures = (\<lambda>_. None)\<rparr>, y)
      | None \<Rightarrow> None)"
| "search R pre (c # cs) =
     (case match_at R pre (c # cs) of
        Some y \<Rightarrow> Some (\<lparr>behind = pre, ahead = c # cs, captures = (\<lambda>_. None)\<rparr>, y)
      | None \<Rightarrow> search R (c # pre) cs)"

text \<open>
  \<open>re.test(s)\<close> for a pattern without the flag \<open>g\<close> (with it, \<open>test\<close> would start at
  the \<open>lastIndex\<close> that the last call left; the source calls \<open>test\<close> on no such pattern).
\<close>

definition re_test :: "regexp \<Rightarrow> jsstring \<Rightarrow> bool" where
  "re_test R s \<longleftrightarrow> search R [] s \<noteq> None"

text \<open>
  \<open>s.match(re)\<close> for a pattern without the flag \<open>g\<close>: \<open>null\<close> (\<open>None\<close>), or the array of
  the matched text (index 0) and the captures, a capture that took no part being
  \<open>undefined\<close> (\<open>None\<close>).
\<close>

record match_result =
  matched :: jsstring
  capture :: "nat \<Rightarrow> jsstring option"

definition re_match :: "regexp \<Rightarrow> jsstring \<Rightarrow> match_result option" where
  "re_match R s =
     (case search R [] s of
        None \<Rightarrow> None
      | Some (x, y) \<Rightarrow> Some \<lparr>matched = between x y, capture = captures y\<rparr>)"

text \<open>
  \<open>s.replace(re, '')\<close>. Without the flag \<open>g\<close> the first match is removed. With it every
  match is removed, each search starting where the last match ended, one code unit further
  after an empty match; the first argument of \<open>replace_from\<close> bounds the number of matches,
  and \<open>re_replace\<close> gives it one more than the length of the string.
\<close>

fun replace_from :: "nat \<Rightarrow> regexp \<Rightarrow> jsstring \<Rightarrow> jsstring \<Rightarrow> jsstring" where
  "replace_from 0 R pre cs = cs"
| "replace_from (Suc n) R pre cs =
     (case search R pre cs of
        None \<Rightarrow> cs
      | Some (x, y) \<Rightarrow>
          take (length cs - length (ahead x)) cs @
          (if length (ahead y) < length (ahead x) then replace_from n R (behind y) (ahead y)
           else case ahead y of
                  [] \<Rightarrow> []
                | c # cs' \<Rightarrow> c # replace_from n R (c # behind y) cs'))"

definition re_replace :: "regexp \<Rightarrow> jsstring \<Rightarrow> jsstring" where
  "re_replace R s =
     (if global R then replace_from (Suc (length s)) R [] s
      else case search R [] s of
             None \<Rightarrow> s
           | Some (x, y) \<Rightarrow> rev (behind x) @ ahead y)"

text \<open>
  \<open>s.split(re)\<close> for a pattern without capturing groups: the separator is tried at every
  index \<open>q\<close> from the start \<open>p\<close> of the current piece, and a match that ends at \<open>p\<close> is passed
  over. The second argument holds the piece read so far, last code unit first.
\<close>

fun split_from :: "regexp \<Rightarrow> jsstring \<Rightarrow> jsstring \<Rightarrow> jsstring \<Rightarrow> jsstring list" where
  "split_from R piece pre [] = [rev piece]"
| "split_from R piece pre (c # cs) =
     (case match_at R pre (c # cs) of
        None \<Rightarrow> split_from R (c # piece) (c # pre) cs
      | Some y \<Rightarrow>
          if length (ahead y) < length (c # cs)
          then rev piece # split_from R [] (behind y) (ahead y)
          else if piece = [] then split_from R [c] (c # pre) cs
          else rev piece # split_from R [c] (c # pre) cs)"

definition re_split :: "regexp \<Rightarrow> jsstring \<Rightarrow> jsstring list" where
  "re_split R s =
     (if s = [] then (if match_at R [] [] = None then [[]] else [])
      else split_from R [] [] s)"

section \<open>Numbers\<close>

text \<open>
  A JavaScript number that \<open>parseFloat\<close> returns: \<open>NaN\<close>, an infinity (\<open>True\<close> for the
  negative one), \<open>-0\<close>, or a finite double other than \<open>-0\<close>, given by its value, a rational.
\<close>

datatype jsnumber = NaN | Infinity bool | MinusZero | Finite rat

text \<open>Rounding to the nearest integer, a tie to the even one.\<close>

definition round_half_even :: "rat \<Rightarrow> int" where
  "round_half_even q =
     (let n = \<lfloor>q\<rfloor>; r = q - of_int n
      in if r < 1 / 2 then n else if 1 / 2 < r then n + 1 else if even n then n else n + 1)"

text \<open>The number of binary digits of a natural number.\<close>

fun bits :: "nat \<Rightarrow> nat" where
  "bits n = (if n = 0 then 0 else Suc (bits (n div 2)))"

declare bits.simps [simp del]

text \<open>
  The binary exponent of a positive rational \<open>q\<close>: the integer \<open>e\<close> with
  \<open>2 ^ e \<le> q < 2 ^ (e + 1)\<close>. From 1 on it is that of the integer part of \<open>q\<close>; below 1,
  \<open>- e\<close> is the least \<open>k\<close> with \<open>1 / q \<le> 2 ^ k\<close>.
\<close>

definition binary_exponent :: "rat \<Rightarrow> int" where
  "binary_exponent q =
     (if 1 \<le> q then int (bits (nat \<lfloor>q\<rfloor>)) - 1 else - int (bits (nat (\<lceil>1 / q\<rceil> - 1))))"

text \<open>
  The Number value for a mathematical value: the double nearest to it, a tie going to the
  double with the even significand. A double has 53 significant binary digits, so the
  doubles around \<open>q\<close> are the multiples of \<open>2 ^ (e - 52)\<close>, where \<open>e\<close> is the binary exponent
  of \<open>q\<close>, and not less than \<open>- 1022\<close>, the exponent of the subnormal doubles. What rounds to
  \<open>2 ^ 1024\<close> or more is an infinity. \<open>number_value neg q\<close> is the Number value for \<open>q\<close>
  (which is not negative) with the sign \<open>neg\<close>.
\<close>

definition number_value :: "bool \<Rightarrow> rat \<Rightarrow> jsnumber" where
  "number_value neg q =
     (let e = max (binary_exponent q) (- 1022);
          ulp = 2 powi (e - 52);
          v = of_int (round_half_even (q / ulp)) * ulp
      in if 2 ^ 1024 \<le> v then Infinity neg
         else if v = 0 \<and> neg then MinusZero
         else Finite (if neg then - v else v))"

definition digits_val :: "jsstring \<Rightarrow> nat" where
  "digits_val ds = foldl (\<lambda>a c. 10 * a + (c - 48)) 0 ds"

text \<open>The optional sign in front of a literal or of an exponent.\<close>

definition split_sign :: "jsstring \<Rightarrow> bool \<times> jsstring" where
  "split_sign s =
     (case s of
        [] \<Rightarrow> (False, [])
      | c # cs \<Rightarrow> if c = 43 then (False, cs) else if c = 45 then (True, cs) else (False, s))"

text \<open>The exponent part of a literal, when there is a complete one, else 0.\<close>

definition exponent :: "jsstring \<Rightarrow> int" where
  "exponent s =
     (case s of
        [] \<Rightarrow> 0
      | c # cs \<Rightarrow>
          if c = 101 \<or> c = 69
          then (let (neg, ds) = split_sign cs; e = int (digits_val (takeWhile is_digit ds))
                in if neg then - e else e)
          else 0)"

text \<open>
  \<open>parseFloat(s)\<close>: leading white space is skipped, and the longest prefix of the rest that
  is a \<open>StrDecimalLiteral\<close> is read; without one the result is \<open>NaN\<close>. The result is the
  Number value for the mathematical value of the literal: it is rounded to a double, and
  is an infinity when the literal is too large. (ECMAScript lets an engine round a literal
  of more than 20 significant digits in two steps; V8, the engine of Node.js, rounds the
  exact value, as is done here.)
\<close>

definition parseFloat :: "jsstring \<Rightarrow> jsnumber" where
  "parseFloat s =
     (let (neg, u) = split_sign (dropWhile is_space s) in
      if take 8 u = js ''Infinity'' then Infinity neg
      else
        let ip = takeWhile is_digit u;
            r = dropWhile is_digit u;
            fp = (case r of [] \<Rightarrow> [] | c # cs \<Rightarrow> if c = 46 then takeWhile is_digit cs else []);
            r' = (case r of [] \<Rightarrow> []
                  | c # cs \<Rightarrow> if c = 46 then dropWhile is_digit cs else r);
            e = exponent r';
            v = (of_nat (digits_val ip) + of_nat (digits_val fp) / 10 ^ length fp)
                * (if 0 \<le> e then 10 ^ nat e else 1 / 10 ^ nat (- e))
        in if ip = [] \<and> fp = [] then NaN else number_value neg v)"

section \<open>The rule table\<close>

text \<open>
  A rule is the triple \<open>{ test, intent, extract }\<close> of the source (the field \<open>extract\<close>
  is \<open>extractor\<close> here). What a rule returns: the intent, one of the nine intent strings of the source, and the
  data, an object whose shape is fixed by the intent. A field that holds \<open>undefined\<close>
  is \<open>None\<close>.
\<close>

datatype intent =
    approvals_decide | approvals_list | approvals_request
  | knowledge_create | knowledge_list | knowledge_search
  | requests_list | requests_create | status

datatype data =
    Decide (id: "jsstring option") (decision: jsstring)
  | StatusFilter (status_filter: "jsstring option")
  | ApprovalRequest (title: jsstring) (description: jsstring) (amount: "jsnumber option")
  | KnowledgeCreate (title: jsstring) (content: jsstring)
  | KnowledgeSearch (query: jsstring)
  | RequestCreate (title: jsstring) (description: jsstring) (priority: jsstring)
  | NoData

text \<open>
  The one exception that the extractors could raise: a method called on \<open>undefined\<close>
  (\<open>colonMatch[1].trim()\<close> when the capture took no part in the match).
\<close>

datatype error = TypeError

record rule =
  test :: "jsstring \<Rightarrow> bool"
  intent :: intent
  extractor :: "jsstring \<Rightarrow> error + data"

subsection \<open>Approvals: decide\<close>

text \<open>\<^verbatim>\<open>/^approve\s+\S+/i\<close>\<close>

definition re_approve_token :: regexp where
  "re_approve_token = regex_i (seqs
     [Bol, lit ''approve'', Plus (Set CSpace), Plus (Set CNotSpace)])"

text \<open>\<^verbatim>\<open>/(request|for|need)/i\<close>\<close>

definition re_request_for_need :: regexp where
  "re_request_for_need = regex_i (Grp 1 (alts [lit ''request'', lit ''for'', lit ''need'']))"

text \<open>\<^verbatim>\<open>/^approve\s+(\S+)/i\<close>\<close>

definition re_approve_id :: regexp where
  "re_approve_id = regex_i (seqs
     [Bol, lit ''approve'', Plus (Set CSpace), Grp 1 (Plus (Set CNotSpace))])"

definition approve_test :: "jsstring \<Rightarrow> bool" where
  "approve_test s \<longleftrightarrow> re_test re_approve_token s \<and> \<not> re_test re_request_for_need s"

text \<open>\<open>match?.[1]\<close> is \<open>undefined\<close> when there is no match.\<close>

definition approve_extract :: "jsstring \<Rightarrow> error + data" where
  "approve_extract s =
     (let match = re_match re_approve_id s
      in Inr (Decide (case match of None \<Rightarrow> None | Some a \<Rightarrow> capture a 1) (js ''approved'')))"

text \<open>\<^verbatim>\<open>/^(deny|reject)\s+\S+/i\<close>\<close>

definition re_deny_token :: regexp where
  "re_deny_token = regex_i (seqs
     [Bol, Grp 1 (alts [lit ''deny'', lit ''reject'']), Plus (Set CSpace),
      Plus (Set CNotSpace)])"

text \<open>\<^verbatim>\<open>/^(?:deny|reject)\s+(\S+)/i\<close>\<close>

definition re_deny_id :: regexp where
  "re_deny_id = regex_i (seqs
     [Bol, alts [lit ''deny'', lit ''reject''], Plus (Set CSpace),
      Grp 1 (Plus (Set CNotSpace))])"

definition deny_test :: "jsstring \<Rightarrow> bool" where
  "deny_test s \<longleftrightarrow> re_test re_deny_token s"

definition deny_extract :: "jsstring \<Rightarrow> error + data" where
  "deny_extract s =
     (let match = re_match re_deny_id s
      in Inr (Decide (case match of None \<Rightarrow> None | Some a \<Rightarrow> capture a 1) (js ''denied'')))"

subsection \<open>Approvals: list\<close>

text \<open>\<^verbatim>\<open>/\b(show|list|get|display|view)\b.*\b(pending\s+)?approvals?\b/i\<close>\<close>

definition re_show_approvals :: regexp where
  "re_show_approvals = regex_i (seqs
     [WordB, Grp 1 (alts [lit ''show'', lit ''list'', lit ''get'', lit ''display'',
        lit ''view'']), WordB,
      Star (Set CDot), WordB, Opt (Grp 2 (seqs [lit ''pending'', Plus (Set CSpace)])),
      lit ''approval'', Opt (lit ''s''), WordB])"

text \<open>\<^verbatim>\<open>/pending/i\<close>\<close>

definition re_pending :: regexp where
  "re_pending = regex_i (lit ''pending'')"

definition approvals_list_test :: "jsstring \<Rightarrow> bool" where
  "approvals_list_test s \<longleftrightarrow> re_test re_show_approvals s"

definition approvals_list_extract :: "jsstring \<Rightarrow> error + data" where
  "approvals_list_extract s =
     (let pending = re_test re_pending s
      in Inr (StatusFilter (if pending then Some (js ''pending'') else None)))"

subsection \<open>Approvals: request\<close>

text \<open>\<^verbatim>\<open>/\b(request|need|submit)\s+(an?\s+)?approval\b/i\<close>\<close>

definition re_request_approval :: regexp where
  "re_request_approval = regex_i (seqs
     [WordB, Grp 1 (alts [lit ''request'', lit ''need'', lit ''submit'']), Plus (Set CSpace),
      Opt (Grp 2 (seqs [lit ''a'', Opt (lit ''n''), Plus (Set CSpace)])),
      lit ''approval'', WordB])"

text \<open>\<^verbatim>\<open>/\bapproval\s+(for|to|request)/i\<close>\<close>

definition re_approval_for :: regexp where
  "re_approval_for = regex_i (seqs
     [WordB, lit ''approval'', Plus (Set CSpace),
      Grp 1 (alts [lit ''for'', lit ''to'', lit ''request''])])"

text \<open>\<^verbatim>\<open>/\bapprove\s+(a|the|this|my)\b/i\<close>\<close>

definition re_approve_a :: regexp where
  "re_approve_a = regex_i (seqs
     [WordB, lit ''approve'', Plus (Set CSpace),
      Grp 1 (alts [lit ''a'', lit ''the'', lit ''this'', lit ''my'']), WordB])"

text \<open>\<^verbatim>\<open>/\b(request|need|submit)\s+(an?\s+)?approval\s*(for|to)?\s*/i\<close>\<close>

definition re_request_approval_for :: regexp where
  "re_request_approval_for = regex_i (seqs
     [WordB, Grp 1 (alts [lit ''request'', lit ''need'', lit ''submit'']), Plus (Set CSpace),
      Opt (Grp 2 (seqs [lit ''a'', Opt (lit ''n''), Plus (Set CSpace)])),
      lit ''approval'', Star (Set CSpace), Opt (Grp 3 (alts [lit ''for'', lit ''to''])),
      Star (Set CSpace)])"

text \<open>\<^verbatim>\<open>/\bapproval\s*(for|to|request)\s*/i\<close>\<close>

definition re_approval_for_strip :: regexp where
  "re_approval_for_strip = regex_i (seqs
     [WordB, lit ''approval'', Star (Set CSpace),
      Grp 1 (alts [lit ''for'', lit ''to'', lit ''request'']), Star (Set CSpace)])"

text \<open>\<^verbatim>\<open>/\$[\d,]+(\.\d{2})?/\<close>\<close>

definition re_amount :: regexp where
  "re_amount = regex (seqs
     [lit ''$'', Plus (Set (CUnion CDigit (CChar (of_char CHR '','')))),
      Opt (Grp 1 (seqs [lit ''.'', Rep 2 (Set CDigit)]))])"

text \<open>\<^verbatim>\<open>/[$,]/g\<close>\<close>

definition re_dollar_comma :: regexp where
  "re_dollar_comma = regex_g (Set (CUnion (CChar (of_char CHR ''$'')) (CChar (of_char CHR '',''))))"

text \<open>\<^verbatim>\<open>/^(request|need|submit)\s+(an?\s+)?approval\s*/i\<close>\<close>

definition re_request_approval_start :: regexp where
  "re_request_approval_start = regex_i (seqs
     [Bol, Grp 1 (alts [lit ''request'', lit ''need'', lit ''submit'']), Plus (Set CSpace),
      Opt (Grp 2 (seqs [lit ''a'', Opt (lit ''n''), Plus (Set CSpace)])),
      lit ''approval'', Star (Set CSpace)])"

definition approvals_request_test :: "jsstring \<Rightarrow> bool" where
  "approvals_request_test s \<longleftrightarrow>
     re_test re_request_approval s \<or> re_test re_approval_for s \<or> re_test re_approve_a s"

definition approvals_request_extract :: "jsstring \<Rightarrow> error + data" where
  "approvals_request_extract s =
     (let title = trim (re_replace re_approval_for_strip (re_replace re_request_approval_for s));
          amountMatch = re_match re_amount s;
          amount = (case amountMatch of
                      Some a \<Rightarrow> Some (parseFloat (re_replace re_dollar_comma (matched a)))
                    | None \<Rightarrow> None);
          title = (if title = [] \<or> length title < 3
                   then trim (re_replace re_request_approval_start s) else title)
      in Inr (ApprovalRequest (if title = [] then js ''Approval Request'' else title) s amount))"

subsection \<open>Knowledge: create\<close>

text \<open>\<^verbatim>\<open>/\b(store|save|add|remember|record|create\s+(a\s+)?knowledge|put|set)\b/i\<close>\<close>

definition re_store :: regexp where
  "re_store = regex_i (seqs
     [WordB, Grp 1 (alts [lit ''store'', lit ''save'', lit ''add'', lit ''remember'',
        lit ''record'',
        seqs [lit ''create'', Plus (Set CSpace), Opt (Grp 2 (seqs [lit ''a'', Plus (Set CSpace)])),
              lit ''knowledge''],
        lit ''put'', lit ''set'']), WordB])"

text \<open>\<^verbatim>\<open>/(request|approval)/i\<close>\<close>

definition re_request_approval_word :: regexp where
  "re_request_approval_word = regex_i (Grp 1 (alts [lit ''request'', lit ''approval'']))"

text \<open>\<^verbatim>\<open>/\b(?:store|save|add|remember|record|put|set)\s+(?:(?:a|our|the|my|this)\s+)?(.+?):\s*(.+)/i\<close>\<close>

definition re_colon :: regexp where
  "re_colon = regex_i (seqs
     [WordB, alts [lit ''store'', lit ''save'', lit ''add'', lit ''remember'', lit ''record'',
        lit ''put'', lit ''set''], Plus (Set CSpace),
      Opt (seqs [alts [lit ''a'', lit ''our'', lit ''the'', lit ''my'', lit ''this''],
                 Plus (Set CSpace)]),
      Grp 1 (LazyPlus (Set CDot)), lit '':'', Star (Set CSpace), Grp 2 (Plus (Set CDot))])"

text \<open>\<^verbatim>\<open>/\b(?:store|save|add|remember|record|put|set)\s+(?:that\s+|this\s+|our\s+|the\s+|a\s+)?(.+)/i\<close>\<close>

definition re_simple :: regexp where
  "re_simple = regex_i (seqs
     [WordB, alts [lit ''store'', lit ''save'', lit ''add'', lit ''remember'', lit ''record'',
        lit ''put'', lit ''set''], Plus (Set CSpace),
      Opt (alts [seqs [lit ''that'', Plus (Set CSpace)], seqs [lit ''this'', Plus (Set CSpace)],
                 seqs [lit ''our'', Plus (Set CSpace)], seqs [lit ''the'', Plus (Set CSpace)],
                 seqs [lit ''a'', Plus (Set CSpace)]]),
      Grp 1 (Plus (Set CDot))])"

text \<open>\<^verbatim>\<open>/\s+/\<close>\<close>

definition re_spaces :: regexp where
  "re_spaces = regex (Plus (Set CSpace))"

definition knowledge_create_test :: "jsstring \<Rightarrow> bool" where
  "knowledge_create_test s \<longleftrightarrow> re_test re_store s \<and> \<not> re_test re_request_approval_word s"

text \<open>
  \<open>colonMatch[1].trim()\<close>, \<open>colonMatch[2].trim()\<close> and \<open>simpleMatch[1].trim()\<close> raise a
  \<open>TypeError\<close> if the capture is \<open>undefined\<close>.
\<close>

definition knowledge_create_extract :: "jsstring \<Rightarrow> error + data" where
  "knowledge_create_extract s =
     (let colonMatch = re_match re_colon s in
      case colonMatch of
        Some a \<Rightarrow>
          (case capture a 1 of
             None \<Rightarrow> Inl TypeError
           | Some t \<Rightarrow>
               (case capture a 2 of
                  None \<Rightarrow> Inl TypeError
                | Some c \<Rightarrow> Inr (KnowledgeCreate (trim t) (trim c))))
      | None \<Rightarrow>
          (let simpleMatch = re_match re_simple s in
           case simpleMatch of
             Some a \<Rightarrow>
               (case capture a 1 of
                  None \<Rightarrow> Inl TypeError
                | Some t \<Rightarrow>
                    (let text = trim t;
                         words = re_split re_spaces text;
                         title = join (take (min 5 (length words)) words)
                     in Inr (KnowledgeCreate title text)))
           | None \<Rightarrow> Inr (KnowledgeCreate (js ''New Entry'') s)))"

subsection \<open>Knowledge: list\<close>

text \<open>\<^verbatim>\<open>/\b(list|show|display|view)\s+(all\s+)?(knowledge|entries|docs)\b/i\<close>\<close>

definition re_list_knowledge :: regexp where
  "re_list_knowledge = regex_i (seqs
     [WordB, Grp 1 (alts [lit ''list'', lit ''show'', lit ''display'', lit ''view'']),
      Plus (Set CSpace), Opt (Grp 2 (seqs [lit ''all'', Plus (Set CSpace)])),
      Grp 3 (alts [lit ''knowledge'', lit ''entries'', lit ''docs'']), WordB])"

definition knowledge_list_test :: "jsstring \<Rightarrow> bool" where
  "knowledge_list_test s \<longleftrightarrow> re_test re_list_knowledge s"

definition knowledge_list_extract :: "jsstring \<Rightarrow> error + data" where
  "knowledge_list_extract s = Inr NoData"

subsection \<open>Knowledge: search\<close>

text \<open>\<^verbatim>\<open>/\b(what('?s|\s+is|\s+are)|how\s+(do|to|does)|find|search|look\s*up|where|tell\s+me|explain|describe)\b/i\<close>;
  the code unit 39 is the apostrophe.\<close>

definition re_question :: regexp where
  "re_question = regex_i (seqs
     [WordB, Grp 1 (alts
        [seqs [lit ''what'', Grp 2 (alts [seqs [Opt (Chr 39), lit ''s''],
           seqs [Plus (Set CSpace), lit ''is''], seqs [Plus (Set CSpace), lit ''are'']])],
         seqs [lit ''how'', Plus (Set CSpace), Grp 3 (alts [lit ''do'', lit ''to'', lit ''does''])],
         lit ''find'', lit ''search'',
         seqs [lit ''look'', Star (Set CSpace), lit ''up''],
         lit ''where'',
         seqs [lit ''tell'', Plus (Set CSpace), lit ''me''],
         lit ''explain'', lit ''describe'']), WordB])"

text \<open>\<^verbatim>\<open>/(approval|request|pending)/i\<close>\<close>

definition re_approval_request_pending :: regexp where
  "re_approval_request_pending =
     regex_i (Grp 1 (alts [lit ''approval'', lit ''request'', lit ''pending'']))"

text \<open>\<^verbatim>\<open>/\b(what('?s|\s+is|\s+are)|how\s+(do|to|does)|find|search(\s+for)?|look\s*up|where('?s|\s+is)|tell\s+me\s+(about)?|explain|describe)\s*/gi\<close>\<close>

definition re_question_prefix :: regexp where
  "re_question_prefix = regex_gi (seqs
     [WordB, Grp 1 (alts
        [seqs [lit ''what'', Grp 2 (alts [seqs [Opt (Chr 39), lit ''s''],
           seqs [Plus (Set CSpace), lit ''is''], seqs [Plus (Set CSpace), lit ''are'']])],
         seqs [lit ''how'', Plus (Set CSpace), Grp 3 (alts [lit ''do'', lit ''to'', lit ''does''])],
         lit ''find'',
         seqs [lit ''search'', Opt (Grp 4 (seqs [Plus (Set CSpace), lit ''for'']))],
         seqs [lit ''look'', Star (Set CSpace), lit ''up''],
         seqs [lit ''where'', Grp 5 (alts [seqs [Opt (Chr 39), lit ''s''],
           seqs [Plus (Set CSpace), lit ''is'']])],
         seqs [lit ''tell'', Plus (Set CSpace), lit ''me'', Plus (Set CSpace),
           Opt (Grp 6 (lit ''about''))],
         lit ''explain'', lit ''describe'']), Star (Set CSpace)])"

text \<open>\<^verbatim>\<open>/^(our|the|my|a|an)\s+/i\<close>\<close>

definition re_article :: regexp where
  "re_article = regex_i (seqs
     [Bol, Grp 1 (alts [lit ''our'', lit ''the'', lit ''my'', lit ''a'', lit ''an'']),
      Plus (Set CSpace)])"

text \<open>\<^verbatim>\<open>/\?+$/\<close>\<close>

definition re_question_marks :: regexp where
  "re_question_marks = regex (seqs [Plus (lit ''?''), Eol])"

definition knowledge_search_test :: "jsstring \<Rightarrow> bool" where
  "knowledge_search_test s \<longleftrightarrow>
     re_test re_question s \<and> \<not> re_test re_approval_request_pending s"

definition knowledge_search_extract :: "jsstring \<Rightarrow> error + data" where
  "knowledge_search_extract s =
     (let query = trim (re_replace re_question_marks (re_replace re_article
                    (re_replace re_question_prefix s)));
          query = (if query = [] \<or> length query < 2
                   then trim (re_replace re_question_marks s) else query)
      in Inr (KnowledgeSearch query))"

subsection \<open>Requests: list\<close>

text \<open>\<^verbatim>\<open>/\b(show|list|display|view)\s+(all\s+)?(open\s+)?requests?\b/i\<close>\<close>

definition re_show_requests :: regexp where
  "re_show_requests = regex_i (seqs
     [WordB, Grp 1 (alts [lit ''show'', lit ''list'', lit ''display'', lit ''view'']),
      Plus (Set CSpace), Opt (Grp 2 (seqs [lit ''all'', Plus (Set CSpace)])),
      Opt (Grp 3 (seqs [lit ''open'', Plus (Set CSpace)])),
      lit ''request'', Opt (lit ''s''), WordB])"

text \<open>\<^verbatim>\<open>/\b(open|pending|active)\b/i\<close>\<close>

definition re_open :: regexp where
  "re_open = regex_i (seqs
     [WordB, Grp 1 (alts [lit ''open'', lit ''pending'', lit ''active'']), WordB])"

definition requests_list_test :: "jsstring \<Rightarrow> bool" where
  "requests_list_test s \<longleftrightarrow> re_test re_show_requests s"

definition requests_list_extract :: "jsstring \<Rightarrow> error + data" where
  "requests_list_extract s =
     (let pending = re_test re_open s
      in Inr (StatusFilter (if pending then Some (js ''open'') else None)))"

subsection \<open>Requests: create\<close>

text \<open>\<^verbatim>\<open>/\b(create|make|new|submit|open)\s+(a\s+)?request\b/i\<close>\<close>

definition re_create_request :: regexp where
  "re_create_request = regex_i (seqs
     [WordB, Grp 1 (alts [lit ''create'', lit ''make'', lit ''new'', lit ''submit'',
        lit ''open'']), Plus (Set CSpace),
      Opt (Grp 2 (seqs [lit ''a'', Plus (Set CSpace)])), lit ''request'', WordB])"

text \<open>\<^verbatim>\<open>/\brequest\s+to\b/i\<close>\<close>

definition re_request_to :: regexp where
  "re_request_to = regex_i (seqs
     [WordB, lit ''request'', Plus (Set CSpace), lit ''to'', WordB])"

text \<open>\<^verbatim>\<open>/\b(need|schedule|book|arrange)\b/i\<close>\<close>

definition re_need :: regexp where
  "re_need = regex_i (seqs
     [WordB, Grp 1 (alts [lit ''need'', lit ''schedule'', lit ''book'', lit ''arrange'']),
      WordB])"

text \<open>\<^verbatim>\<open>/(approval)/i\<close>\<close>

definition re_approval :: regexp where
  "re_approval = regex_i (Grp 1 (lit ''approval''))"

text \<open>\<^verbatim>\<open>/\b(create|make|new|submit|open)\s+(a\s+)?request\s*(for|to)?\s*/i\<close>\<close>

definition re_create_request_for :: regexp where
  "re_create_request_for = regex_i (seqs
     [WordB, Grp 1 (alts [lit ''create'', lit ''make'', lit ''new'', lit ''submit'',
        lit ''open'']), Plus (Set CSpace),
      Opt (Grp 2 (seqs [lit ''a'', Plus (Set CSpace)])), lit ''request'', Star (Set CSpace),
      Opt (Grp 3 (alts [lit ''for'', lit ''to''])), Star (Set CSpace)])"

text \<open>\<^verbatim>\<open>/\brequest\s+to\s*/i\<close>\<close>

definition re_request_to_strip :: regexp where
  "re_request_to_strip = regex_i (seqs
     [WordB, lit ''request'', Plus (Set CSpace), lit ''to'', Star (Set CSpace)])"

text \<open>\<^verbatim>\<open>/\b(need\s+to|need\s+a|schedule|book|arrange)\s*/i\<close>\<close>

definition re_need_strip :: regexp where
  "re_need_strip = regex_i (seqs
     [WordB, Grp 1 (alts [seqs [lit ''need'', Plus (Set CSpace), lit ''to''],
        seqs [lit ''need'', Plus (Set CSpace), lit ''a''],
        lit ''schedule'', lit ''book'', lit ''arrange'']), Star (Set CSpace)])"

text \<open>\<^verbatim>\<open>/\b(urgent|asap|critical|emergency)\b/i\<close>\<close>

definition re_urgent :: regexp where
  "re_urgent = regex_i (seqs
     [WordB, Grp 1 (alts [lit ''urgent'', lit ''asap'', lit ''critical'', lit ''emergency'']),
      WordB])"

text \<open>\<^verbatim>\<open>/\bhigh\s*(?:priority)?\b/i\<close>\<close>

definition re_high :: regexp where
  "re_high = regex_i (seqs
     [WordB, lit ''high'', Star (Set CSpace), Opt (lit ''priority''), WordB])"

text \<open>\<^verbatim>\<open>/\blow\s*(?:priority)?\b/i\<close>\<close>

definition re_low :: regexp where
  "re_low = regex_i (seqs
     [WordB, lit ''low'', Star (Set CSpace), Opt (lit ''priority''), WordB])"

text \<open>\<^verbatim>\<open>/\b(urgent|asap|critical|emergency|high\s*priority|low\s*priority)\b/gi\<close>\<close>

definition re_priority_words :: regexp where
  "re_priority_words = regex_gi (seqs
     [WordB, Grp 1 (alts [lit ''urgent'', lit ''asap'', lit ''critical'', lit ''emergency'',
        seqs [lit ''high'', Star (Set CSpace), lit ''priority''],
        seqs [lit ''low'', Star (Set CSpace), lit ''priority'']]), WordB])"

definition requests_create_test :: "jsstring \<Rightarrow> bool" where
  "requests_create_test s \<longleftrightarrow>
     re_test re_create_request s \<or> re_test re_request_to s \<or>
     (re_test re_need s \<and> \<not> re_test re_approval s)"

definition requests_create_extract :: "jsstring \<Rightarrow> error + data" where
  "requests_create_extract s =
     (let title = trim (re_replace re_need_strip (re_replace re_request_to_strip
                    (re_replace re_create_request_for s)));
          priority = (if re_test re_urgent s then js ''critical''
                      else if re_test re_high s then js ''high''
                      else if re_test re_low s then js ''low''
                      else js ''medium'');
          title = trim (re_replace re_priority_words title);
          title = (if title = [] \<or> length title < 3 then trim s else title)
      in Inr (RequestCreate title s priority))"

subsection \<open>Status\<close>

text \<open>\<^verbatim>\<open>/^(status|health|check|ping)\b/i\<close>\<close>

definition re_status :: regexp where
  "re_status = regex_i (seqs
     [Bol, Grp 1 (alts [lit ''status'', lit ''health'', lit ''check'', lit ''ping'']), WordB])"

definition status_test :: "jsstring \<Rightarrow> bool" where
  "status_test s \<longleftrightarrow> re_test re_status s"

definition status_extract :: "jsstring \<Rightarrow> error + data" where
  "status_extract s = Inr NoData"

subsection \<open>The table and the dispatcher\<close>

definition INTENT_RULES :: "rule list" where
  "INTENT_RULES =
     [\<lparr>test = approve_test, intent = approvals_decide, extractor = approve_extract\<rparr>,
      \<lparr>test = deny_test, intent = approvals_decide, extractor = deny_extract\<rparr>,
      \<lparr>test = approvals_list_test, intent = approvals_list, extractor = approvals_list_extract\<rparr>,
      \<lparr>test = approvals_request_test, intent = approvals_request,
        extractor = approvals_request_extract\<rparr>,
      \<lparr>test = knowledge_create_test, intent = knowledge_create,
        extractor = knowledge_create_extract\<rparr>,
      \<lparr>test = knowledge_list_test, intent = knowledge_list, extractor = knowledge_list_extract\<rparr>,
      \<lparr>test = knowledge_search_test, intent = knowledge_search,
        extractor = knowledge_search_extract\<rparr>,
      \<lparr>test = requests_list_test, intent = requests_list, extractor = requests_list_extract\<rparr>,
      \<lparr>test = requests_create_test, intent = requests_create,
        extractor = requests_create_extract\<rparr>,
      \<lparr>test = status_test, intent = status, extractor = status_extract\<rparr>]"

text \<open>
  The loop of \<open>detectIntent\<close> over the table: the first rule whose test holds decides, and
  its extractor runs on the trimmed input. \<open>None\<close> when no test holds.
\<close>

fun first_match :: "rule list \<Rightarrow> jsstring \<Rightarrow> (error + intent \<times> data) option" where
  "first_match [] s = None"
| "first_match (r # rs) s =
     (if test r s
      then Some (case extractor r s of Inl e \<Rightarrow> Inl e | Inr d \<Rightarrow> Inr (intent r, d))
      else first_match rs s)"

text \<open>
  \<open>detectIntent(input)\<close>: \<open>Inl\<close> is an exception, \<open>Inr None\<close> the result \<open>null\<close>, and
  \<open>Inr (Some (i, d))\<close> the result \<open>{ intent: i, data: d }\<close>.
\<close>

definition detectIntent :: "jsstring \<Rightarrow> error + (intent \<times> data) option" where
  "detectIntent input =
     (let s = trim input in
      case first_match INTENT_RULES s of
        Some (Inl e) \<Rightarrow> Inl e
      | Some (Inr r) \<Rightarrow> Inr (Some r)
      | None \<Rightarrow>
          if endsWith s (js ''?'') \<or> length s < 80
          then Inr (Some (knowledge_search,
                 KnowledgeSearch (trim (re_replace re_question_marks s))))
          else Inr None)"


section \<open>The state of the router\<close>

text \<open>
  The table \<open>INTENT_RULES\<close> is a constant that nothing assigns to, strings are immutable,
  and \<open>trim\<close>, \<open>endsWith\<close>, \<open>join\<close> and \<open>parseFloat\<close> read their arguments only. The one
  piece of state that a call of \<open>detectIntent\<close> reads and writes is the property
  \<open>lastIndex\<close> of regular expression objects. This section is the router once more,
  with that state: a heap holds the regular expression objects in the order of their
  creation, and a reference to an object is its index in the heap. A computation takes the
  heap and returns its result and the heap it leaves.

  An object has its pattern and flags, which never change, and \<open>lastIndex\<close>. The flag \<open>y\<close>
  is set on no pattern of the source, but on the copy of the separator that \<open>split\<close> makes.
\<close>

record regexp_object =
  source :: regexp
  sticky :: bool
  lastIndex :: nat

type_synonym heap = "regexp_object list"

text \<open>
  Evaluating a regular expression literal creates a new object every time, with
  \<open>lastIndex\<close> 0.
\<close>

definition RegExpCreate :: "regexp \<Rightarrow> bool \<Rightarrow> (heap, nat) state" where
  "RegExpCreate R y = State (\<lambda>h. (length h, h @ [\<lparr>source = R, sticky = y, lastIndex = 0\<rparr>]))"

text \<open>Reading an object, and writing its \<open>lastIndex\<close>.\<close>

definition object :: "nat \<Rightarrow> (heap, regexp_object) state" where
  "object a = State (\<lambda>h. (h ! a, h))"

definition set_lastIndex :: "nat \<Rightarrow> nat \<Rightarrow> (heap, unit) state" where
  "set_lastIndex a i = State (\<lambda>h. ((), h[a := (h ! a)\<lparr>lastIndex := i\<rparr>]))"

text \<open>
  \<open>RegExpBuiltinExec\<close>. With the flag \<open>g\<close> or \<open>y\<close> the search starts at \<open>lastIndex\<close>, and
  \<open>lastIndex\<close> becomes the index where the match ends, or 0 when there is none; without
  them the search starts at 0 and \<open>lastIndex\<close> is left alone. With \<open>y\<close> the pattern is tried
  at the start index only.
\<close>

definition match_from :: "regexp \<Rightarrow> bool \<Rightarrow> jsstring \<Rightarrow> nat \<Rightarrow> (mstate \<times> mstate) option" where
  "match_from R y s i =
     (let pre = rev (take i s); cs = drop i s
      in if y
         then (case match_at R pre cs of
                 None \<Rightarrow> None
               | Some z \<Rightarrow> Some (\<lparr>behind = pre, ahead = cs, captures = (\<lambda>_. None)\<rparr>, z))
         else search R pre cs)"

definition RegExpBuiltinExec :: "nat \<Rightarrow> jsstring \<Rightarrow> (heap, (mstate \<times> mstate) option) state" where
  "RegExpBuiltinExec a s = do {
     obj \<leftarrow> object a;
     let keeps = (global (source obj) \<or> sticky obj);
     let i = (if keeps then lastIndex obj else 0);
     if length s < i
     then do {
       (if keeps then set_lastIndex a 0 else State_Monad.return ());
       State_Monad.return None }
     else
       case match_from (source obj) (sticky obj) s i of
         None \<Rightarrow> do {
           (if keeps then set_lastIndex a 0 else State_Monad.return ());
           State_Monad.return None }
       | Some (x, z) \<Rightarrow> do {
           (if keeps then set_lastIndex a (length (behind z)) else State_Monad.return ());
           State_Monad.return (Some (x, z)) } }"

text \<open>\<open>re.test(s)\<close>, and \<open>s.match(re)\<close> for a pattern without the flag \<open>g\<close>.\<close>

definition RegExp_test :: "nat \<Rightarrow> jsstring \<Rightarrow> (heap, bool) state" where
  "RegExp_test a s = do {
     r \<leftarrow> RegExpBuiltinExec a s;
     State_Monad.return (r \<noteq> None) }"

definition String_match :: "jsstring \<Rightarrow> nat \<Rightarrow> (heap, match_result option) state" where
  "String_match s a = do {
     r \<leftarrow> RegExpBuiltinExec a s;
     State_Monad.return
       (case r of
          None \<Rightarrow> None
        | Some (x, y) \<Rightarrow> Some \<lparr>matched = between x y, capture = captures y\<rparr>) }"

text \<open>
  \<open>s.replace(re, '')\<close>. With the flag \<open>g\<close>, \<open>lastIndex\<close> is set to 0 and \<open>exec\<close> is called
  until it finds nothing, \<open>lastIndex\<close> being moved one further after an empty match; \<open>p\<close> is
  the index up to which the input is dealt with. Every call but the last moves
  \<open>lastIndex\<close> forward and the last finds it at most one beyond the end of the string, so
  there are at most \<open>length s + 2\<close> calls.
\<close>

primrec replace_loop :: "nat \<Rightarrow> nat \<Rightarrow> jsstring \<Rightarrow> nat \<Rightarrow> (heap, jsstring) state" where
  "replace_loop 0 a s p = State_Monad.return (drop p s)"
| "replace_loop (Suc n) a s p = do {
     r \<leftarrow> RegExpBuiltinExec a s;
     case r of
       None \<Rightarrow> State_Monad.return (drop p s)
     | Some (x, y) \<Rightarrow> do {
         (if between x y = []
          then do { obj \<leftarrow> object a; set_lastIndex a (Suc (lastIndex obj)) }
          else State_Monad.return ());
         rest \<leftarrow> replace_loop n a s (length (behind y));
         State_Monad.return (take (length (behind x) - p) (drop p s) @ rest) } }"

definition String_replace :: "jsstring \<Rightarrow> nat \<Rightarrow> (heap, jsstring) state" where
  "String_replace s a = do {
     obj \<leftarrow> object a;
     if global (source obj)
     then do {
       set_lastIndex a 0;
       replace_loop (length s + 2) a s 0 }
     else do {
       r \<leftarrow> RegExpBuiltinExec a s;
       State_Monad.return
         (case r of None \<Rightarrow> s | Some (x, y) \<Rightarrow> rev (behind x) @ ahead y) } }"

text \<open>
  \<open>s.split(re)\<close> for a pattern without capturing groups. The separator is copied to a new
  object with the flag \<open>y\<close>; \<open>p\<close> is the start of the current piece and \<open>q\<close> the index
  where the separator is tried next. Two rounds of the loop in a row move \<open>q\<close> forward, so
  there are at most \<open>2 * length s\<close> rounds.
\<close>

primrec split_loop :: "nat \<Rightarrow> nat \<Rightarrow> jsstring \<Rightarrow> nat \<Rightarrow> nat \<Rightarrow> (heap, jsstring list) state" where
  "split_loop 0 b s p q = State_Monad.return [drop p s]"
| "split_loop (Suc n) b s p q =
     (if q < length s
      then do {
        set_lastIndex b q;
        z \<leftarrow> RegExpBuiltinExec b s;
        case z of
          None \<Rightarrow> split_loop n b s p (Suc q)
        | Some _ \<Rightarrow> do {
            obj \<leftarrow> object b;
            let e = min (lastIndex obj) (length s);
            if e = p then split_loop n b s p (Suc q)
            else do {
              rest \<leftarrow> split_loop n b s e e;
              State_Monad.return (take (q - p) (drop p s) # rest) } } }
      else State_Monad.return [drop p s])"

definition String_split :: "jsstring \<Rightarrow> nat \<Rightarrow> (heap, jsstring list) state" where
  "String_split s a = do {
     obj \<leftarrow> object a;
     b \<leftarrow> RegExpCreate (source obj) True;
     if s = []
     then do {
       z \<leftarrow> RegExpBuiltinExec b s;
       State_Monad.return (if z = None then [[]] else []) }
     else split_loop (2 * length s) b s 0 0 }"

text \<open>A method called with a regular expression literal: the literal is evaluated first.\<close>

definition test_literal :: "regexp \<Rightarrow> jsstring \<Rightarrow> (heap, bool) state" where
  "test_literal R s = do { a \<leftarrow> RegExpCreate R False; RegExp_test a s }"

definition match_literal :: "jsstring \<Rightarrow> regexp \<Rightarrow> (heap, match_result option) state" where
  "match_literal s R = do { a \<leftarrow> RegExpCreate R False; String_match s a }"

definition replace_literal :: "jsstring \<Rightarrow> regexp \<Rightarrow> (heap, jsstring) state" where
  "replace_literal s R = do { a \<leftarrow> RegExpCreate R False; String_replace s a }"

definition split_literal :: "jsstring \<Rightarrow> regexp \<Rightarrow> (heap, jsstring list) state" where
  "split_literal s R = do { a \<leftarrow> RegExpCreate R False; String_split s a }"

text \<open>
  The rules, the table and \<open>detectIntent\<close> as they are in the source, every regular
  expression literal creating its object where the source has it, under the same
  conditions (the right operand of \<open>&&\<close> and \<open>||\<close> is evaluated only when the left one does
  not decide).
\<close>

record rule_st =
  test_st :: "jsstring \<Rightarrow> (heap, bool) state"
  intent_st :: intent
  extractor_st :: "jsstring \<Rightarrow> (heap, error + data) state"

definition approve_test_st :: "jsstring \<Rightarrow> (heap, bool) state" where
  "approve_test_st s = do {
     a \<leftarrow> test_literal re_approve_token s;
     if a
     then do { b \<leftarrow> test_literal re_request_for_need s; State_Monad.return (\<not> b) }
     else State_Monad.return False }"

definition approve_extract_st :: "jsstring \<Rightarrow> (heap, error + data) state" where
  "approve_extract_st s = do {
     match \<leftarrow> match_literal s re_approve_id;
     State_Monad.return
       (Inr (Decide (case match of None \<Rightarrow> None | Some a \<Rightarrow> capture a 1) (js ''approved''))) }"

definition deny_test_st :: "jsstring \<Rightarrow> (heap, bool) state" where
  "deny_test_st s = test_literal re_deny_token s"

definition deny_extract_st :: "jsstring \<Rightarrow> (heap, error + data) state" where
  "deny_extract_st s = do {
     match \<leftarrow> match_literal s re_deny_id;
     State_Monad.return
       (Inr (Decide (case match of None \<Rightarrow> None | Some a \<Rightarrow> capture a 1) (js ''denied''))) }"

definition approvals_list_test_st :: "jsstring \<Rightarrow> (heap, bool) state" where
  "approvals_list_test_st s = test_literal re_show_approvals s"

definition approvals_list_extract_st :: "jsstring \<Rightarrow> (heap, error + data) state" where
  "approvals_list_extract_st s = do {
     pending \<leftarrow> test_literal re_pending s;
     State_Monad.return (Inr (StatusFilter (if pending then Some (js ''pending'') else None))) }"

definition approvals_request_test_st :: "jsstring \<Rightarrow> (heap, bool) state" where
  "approvals_request_test_st s = do {
     a \<leftarrow> test_literal re_request_approval s;
     if a then State_Monad.return True
     else do {
       b \<leftarrow> test_literal re_approval_for s;
       if b then State_Monad.return True
       else test_literal re_approve_a s } }"

definition approvals_request_extract_st :: "jsstring \<Rightarrow> (heap, error + data) state" where
  "approvals_request_extract_st s = do {
     t \<leftarrow> replace_literal s re_request_approval_for;
     t \<leftarrow> replace_literal t re_approval_for_strip;
     let title = trim t;
     amountMatch \<leftarrow> match_literal s re_amount;
     amount \<leftarrow>
       (case amountMatch of
          Some a \<Rightarrow> do {
            digits \<leftarrow> replace_literal (matched a) re_dollar_comma;
            State_Monad.return (Some (parseFloat digits)) }
        | None \<Rightarrow> State_Monad.return None);
     title \<leftarrow>
       (if title = [] \<or> length title < 3
        then do {
          t \<leftarrow> replace_literal s re_request_approval_start;
          State_Monad.return (trim t) }
        else State_Monad.return title);
     State_Monad.return
       (Inr (ApprovalRequest (if title = [] then js ''Approval Request'' else title) s amount)) }"

definition knowledge_create_test_st :: "jsstring \<Rightarrow> (heap, bool) state" where
  "knowledge_create_test_st s = do {
     a \<leftarrow> test_literal re_store s;
     if a
     then do { b \<leftarrow> test_literal re_request_approval_word s; State_Monad.return (\<not> b) }
     else State_Monad.return False }"

definition knowledge_create_extract_st :: "jsstring \<Rightarrow> (heap, error + data) state" where
  "knowledge_create_extract_st s = do {
     colonMatch \<leftarrow> match_literal s re_colon;
     case colonMatch of
       Some a \<Rightarrow>
         State_Monad.return
           (case capture a 1 of
              None \<Rightarrow> Inl TypeError
            | Some t \<Rightarrow>
                (case capture a 2 of
                   None \<Rightarrow> Inl TypeError
                 | Some c \<Rightarrow> Inr (KnowledgeCreate (trim t) (trim c))))
     | None \<Rightarrow> do {
         simpleMatch \<leftarrow> match_literal s re_simple;
         case simpleMatch of
           Some a \<Rightarrow>
             (case capture a 1 of
                None \<Rightarrow> State_Monad.return (Inl TypeError)
              | Some t \<Rightarrow> do {
                  let text = trim t;
                  words \<leftarrow> split_literal text re_spaces;
                  let title = join (take (min 5 (length words)) words);
                  State_Monad.return (Inr (KnowledgeCreate title text)) })
         | None \<Rightarrow> State_Monad.return (Inr (KnowledgeCreate (js ''New Entry'') s)) } }"

definition knowledge_list_test_st :: "jsstring \<Rightarrow> (heap, bool) state" where
  "knowledge_list_test_st s = test_literal re_list_knowledge s"

definition knowledge_list_extract_st :: "jsstring \<Rightarrow> (heap, error + data) state" where
  "knowledge_list_extract_st s = State_Monad.return (Inr NoData)"

definition knowledge_search_test_st :: "jsstring \<Rightarrow> (heap, bool) state" where
  "knowledge_search_test_st s = do {
     a \<leftarrow> test_literal re_question s;
     if a
     then do { b \<leftarrow> test_literal re_approval_request_pending s; State_Monad.return (\<not> b) }
     else State_Monad.return False }"

definition knowledge_search_extract_st :: "jsstring \<Rightarrow> (heap, error + data) state" where
  "knowledge_search_extract_st s = do {
     q \<leftarrow> replace_literal s re_question_prefix;
     q \<leftarrow> replace_literal q re_article;
     q \<leftarrow> replace_literal q re_question_marks;
     let query = trim q;
     query \<leftarrow>
       (if query = [] \<or> length query < 2
        then do { q \<leftarrow> replace_literal s re_question_marks; State_Monad.return (trim q) }
        else State_Monad.return query);
     State_Monad.return (Inr (KnowledgeSearch query)) }"

definition requests_list_test_st :: "jsstring \<Rightarrow> (heap, bool) state" where
  "requests_list_test_st s = test_literal re_show_requests s"

definition requests_list_extract_st :: "jsstring \<Rightarrow> (heap, error + data) state" where
  "requests_list_extract_st s = do {
     pending \<leftarrow> test_literal re_open s;
     State_Monad.return (Inr (StatusFilter (if pending then Some (js ''open'') else None))) }"

definition requests_create_test_st :: "jsstring \<Rightarrow> (heap, bool) state" where
  "requests_create_test_st s = do {
     a \<leftarrow> test_literal re_create_request s;
     if a then State_Monad.return True
     else do {
       b \<leftarrow> test_literal re_request_to s;
       if b then State_Monad.return True
       else do {
         c \<leftarrow> test_literal re_need s;
         if c
         then do { d \<leftarrow> test_literal re_approval s; State_Monad.return (\<not> d) }
         else State_Monad.return False } } }"

definition requests_create_extract_st :: "jsstring \<Rightarrow> (heap, error + data) state" where
  "requests_create_extract_st s = do {
     t \<leftarrow> replace_literal s re_create_request_for;
     t \<leftarrow> replace_literal t re_request_to_strip;
     t \<leftarrow> replace_literal t re_need_strip;
     let title = trim t;
     urgent \<leftarrow> test_literal re_urgent s;
     priority \<leftarrow>
       (if urgent then State_Monad.return (js ''critical'')
        else do {
          high \<leftarrow> test_literal re_high s;
          if high then State_Monad.return (js ''high'')
          else do {
            low \<leftarrow> test_literal re_low s;
            State_Monad.return (if low then js ''low'' else js ''medium'') } });
     t \<leftarrow> replace_literal title re_priority_words;
     let title = trim t;
     let title = (if title = [] \<or> length title < 3 then trim s else title);
     State_Monad.return (Inr (RequestCreate title s priority)) }"

definition status_test_st :: "jsstring \<Rightarrow> (heap, bool) state" where
  "status_test_st s = test_literal re_status s"

definition status_extract_st :: "jsstring \<Rightarrow> (heap, error + data) state" where
  "status_extract_st s = State_Monad.return (Inr NoData)"

definition INTENT_RULES_st :: "rule_st list" where
  "INTENT_RULES_st =
     [\<lparr>test_st = approve_test_st, intent_st = approvals_decide,
        extractor_st = approve_extract_st\<rparr>,
      \<lparr>test_st = deny_test_st, intent_st = approvals_decide, extractor_st = deny_extract_st\<rparr>,
      \<lparr>test_st = approvals_list_test_st, intent_st = approvals_list,
        extractor_st = approvals_list_extract_st\<rparr>,
      \<lparr>test_st = approvals_request_test_st, intent_st = approvals_request,
        extractor_st = approvals_request_extract_st\<rparr>,
      \<lparr>test_st = knowledge_create_test_st, intent_st = knowledge_create,
        extractor_st = knowledge_create_extract_st\<rparr>,
      \<lparr>test_st = knowledge_list_test_st, intent_st = knowledge_list,
        extractor_st = knowledge_list_extract_st\<rparr>,
      \<lparr>test_st = knowledge_search_test_st, intent_st = knowledge_search,
        extractor_st = knowledge_search_extract_st\<rparr>,
      \<lparr>test_st = requests_list_test_st, intent_st = requests_list,
        extractor_st = requests_list_extract_st\<rparr>,
      \<lparr>test_st = requests_create_test_st, intent_st = requests_create,
        extractor_st = requests_create_extract_st\<rparr>,
      \<lparr>test_st = status_test_st, intent_st = status, extractor_st = status_extract_st\<rparr>]"

primrec first_match_st ::
  "rule_st list \<Rightarrow> jsstring \<Rightarrow> (heap, (error + intent \<times> data) option) state" where
  "first_match_st [] s = State_Monad.return None"
| "first_match_st (r # rs) s = do {
     holds \<leftarrow> test_st r s;
     if holds
     then do {
       d \<leftarrow> extractor_st r s;
       State_Monad.return (Some (case d of Inl e \<Rightarrow> Inl e | Inr d \<Rightarrow> Inr (intent_st r, d))) }
     else first_match_st rs s }"

definition detectIntent_st :: "jsstring \<Rightarrow> (heap, error + (intent \<times> data) option) state" where
  "detectIntent_st input = do {
     let s = trim input;
     r \<leftarrow> first_match_st INTENT_RULES_st s;
     case r of
       Some (Inl e) \<Rightarrow> State_Monad.return (Inl e)
     | Some (Inr r) \<Rightarrow> State_Monad.return (Inr (Some r))
     | None \<Rightarrow>
         if endsWith s (js ''?'') \<or> length s < 80
         then do {
           q \<leftarrow> replace_literal s re_question_marks;
           State_Monad.return (Inr (Some (knowledge_search, KnowledgeSearch (trim q)))) }
         else State_Monad.return (Inr None) }"

section \<open>Notions for the proofs\<close>

text \<open>
  \<open>frame gs x y\<close>: the state \<open>y\<close> has the captures of \<open>x\<close>, but for the groups \<open>gs\<close>.
  \<open>passes f gs\<close>: whatever the matcher \<open>f\<close> returns is a result of its continuation, at a
  state that differs from the start in the captures \<open>gs\<close> at most.
\<close>

definition frame :: "nat list \<Rightarrow> mstate \<Rightarrow> mstate \<Rightarrow> bool" where
  "frame gs x y \<longleftrightarrow> (\<forall>i. i \<notin> set gs \<longrightarrow> captures y i = captures x i)"

definition passes :: "(cont \<Rightarrow> cont) \<Rightarrow> nat list \<Rightarrow> bool" where
  "passes f gs \<longleftrightarrow> (\<forall>k x z. f k x = Some z \<longrightarrow> (\<exists>y. k y = Some z \<and> frame gs x y))"

text \<open>
  Two calls of \<open>detectIntent\<close> in a row, on the same input: the second call runs on the
  heap that the first call leaves. \<open>returns c v\<close>: the computation \<open>c\<close> returns \<open>v\<close>, whatever
  the heap it starts on.
\<close>

definition detectIntent_twice ::
  "jsstring \<Rightarrow> heap \<Rightarrow> (error + (intent \<times> data) option) \<times> (error + (intent \<times> data) option)" where
  "detectIntent_twice s h =
     fst (run_state (do {
       first \<leftarrow> detectIntent_st s;
       second \<leftarrow> detectIntent_st s;
       State_Monad.return (first, second) }) h)"

definition returns :: "(heap, 'a) state \<Rightarrow> 'a \<Rightarrow> bool" where
  "returns c v \<longleftrightarrow> (\<forall>h. fst (run_state c h) = v)"

text \<open>
  \<open>later x y\<close>: the state \<open>y\<close> is the state \<open>x\<close> moved forward in the same input.
  \<open>forward f\<close>: whatever the matcher \<open>f\<close> returns is a result of its continuation at such a
  state.
\<close>

definition later :: "mstate \<Rightarrow> mstate \<Rightarrow> bool" where
  "later x y \<longleftrightarrow> (\<exists>v. ahead x = v @ ahead y \<and> behind y = rev v @ behind x)"

definition forward :: "(cont \<Rightarrow> cont) \<Rightarrow> bool" where
  "forward f \<longleftrightarrow> (\<forall>k x z. f k x = Some z \<longrightarrow> (\<exists>y. k y = Some z \<and> later x y))"

text \<open>\<open>s.includes(t)\<close>, for stating what a title contains.\<close>

fun contains :: "jsstring \<Rightarrow> jsstring \<Rightarrow> bool" where
  "contains [] t = (t = [])"
| "contains (c # cs) t = (take (length t) (c # cs) = t \<or> contains cs t)"

text \<open>
  The trimmed input without its trailing question marks, as the fallback of \<open>detectIntent\<close>
  is to be described; 63 is the question mark.
\<close>

definition strip_question_marks :: "jsstring \<Rightarrow> jsstring" where
  "strip_question_marks s = rev (dropWhile (\<lambda>c. c = 63) (rev s))"

text \<open>
  \<open>one P\<close> is the matcher of one code unit that satisfies \<open>P\<close>, and \<open>skip v x\<close> the state \<open>x\<close>
  moved over the text \<open>v\<close>. \<open>starts_with_ci s w\<close>: the string \<open>s\<close> starts with the word \<open>w\<close>, in
  whatever case; \<open>contains_ci s w\<close>: the word occurs in it somewhere.
\<close>

definition one :: "(nat \<Rightarrow> bool) \<Rightarrow> cont \<Rightarrow> cont" where
  "one P k x = (case ahead x of [] \<Rightarrow> None | c # _ \<Rightarrow> if P c then k (advance x) else None)"

definition skip :: "jsstring \<Rightarrow> mstate \<Rightarrow> mstate" where
  "skip v x = x\<lparr>behind := rev v @ behind x, ahead := drop (length v) (ahead x)\<rparr>"

definition starts_with_ci :: "jsstring \<Rightarrow> jsstring \<Rightarrow> bool" where
  "starts_with_ci s w \<longleftrightarrow>
     length w \<le> length s \<and> map canonicalize (take (length w) s) = map canonicalize w"

fun contains_ci :: "jsstring \<Rightarrow> jsstring \<Rightarrow> bool" where
  "contains_ci [] w = (w = [])"
| "contains_ci (c # cs) w = (starts_with_ci (c # cs) w \<or> contains_ci cs w)"

text \<open>
  For the claim about amounts: \<open>dollar_then P s\<close> says that \<open>s\<close> has a dollar sign (36) with
  a code unit that satisfies \<open>P\<close> right after it; \<open>cents rest\<close> is the point (46) and two
  digits at the start of \<open>rest\<close>, when they are there, and \<open>cents_val\<close> their value; 44 is the
  comma.
\<close>

fun dollar_then :: "(nat \<Rightarrow> bool) \<Rightarrow> jsstring \<Rightarrow> bool" where
  "dollar_then P (a # b # cs) = (a = 36 \<and> P b \<or> dollar_then P (b # cs))"
| "dollar_then P _ = False"

definition digit_or_comma :: "nat \<Rightarrow> bool" where
  "digit_or_comma c \<longleftrightarrow> is_digit c \<or> c = 44"

definition cents :: "jsstring \<Rightarrow> jsstring" where
  "cents rest =
     (case rest of
        a # b # c # _ \<Rightarrow> if a = 46 \<and> is_digit b \<and> is_digit c then [a, b, c] else []
      | _ \<Rightarrow> [])"

definition cents_val :: "jsstring \<Rightarrow> rat" where
  "cents_val rest = (case cents rest of [] \<Rightarrow> 0 | _ # ds \<Rightarrow> of_nat (digits_val ds) / 100)"

section \<open>Trimming\<close>

lemma dropWhile_rev_dropWhile:
  "t = [] \<or> \<not> P (hd t) \<Longrightarrow>
   dropWhile P (rev (dropWhile P (rev t))) = rev (dropWhile P (rev t))"
  by (cases t) (auto simp: dropWhile_append)

lemma trim_idem: "trim (trim s) = trim s"
proof -
  have "dropWhile is_space s = [] \<or> \<not> is_space (hd (dropWhile is_space s))"
    using hd_dropWhile[of is_space s] by blast
  then show ?thesis
    unfolding trim_def by (simp add: dropWhile_rev_dropWhile)
qed

section \<open>Results of the matcher come from its continuation\<close>


lemma frame_refl: "frame gs x x" by (simp add: frame_def)

lemma frame_trans: "frame gs x y \<Longrightarrow> frame hs y z \<Longrightarrow> frame (gs @ hs) x z"
  by (simp add: frame_def)

lemma frame_mono: "frame gs x y \<Longrightarrow> set gs \<subseteq> set hs \<Longrightarrow> frame hs x y"
  by (auto simp add: frame_def)

lemma frame_advance: "frame gs x (advance x)"
  by (simp add: frame_def advance_def split: list.splits)

lemma frame_clear: "frame gs x (clear gs x)"
  by (simp add: frame_def clear_def)


lemma greedy_passes:
  assumes "passes f gs"
  shows "greedy f gs n k x = Some z \<Longrightarrow> \<exists>y. k y = Some z \<and> frame gs x y"
proof (induction n arbitrary: x)
  case 0
  then show ?case by (auto intro: frame_refl)
next
  case (Suc n)
  show ?case
  proof (cases "f (progress x (greedy f gs n k)) (clear gs x)")
    case None
    with Suc.prems have "k x = Some z" by simp
    then show ?thesis by (auto intro: frame_refl)
  next
    case (Some w)
    with Suc.prems have "f (progress x (greedy f gs n k)) (clear gs x) = Some z" by simp
    with assms obtain y1 where y1: "progress x (greedy f gs n k) y1 = Some z" "frame gs (clear gs x) y1"
      unfolding passes_def by blast
    from y1(1) have "greedy f gs n k y1 = Some z"
      by (simp add: progress_def split: if_splits)
    from Suc.IH[OF this] obtain y where "k y = Some z" "frame gs y1 y" by blast
    moreover have "frame gs x y"
      using frame_clear[of gs x] y1(2) \<open>frame gs y1 y\<close> by (simp add: frame_def)
    ultimately show ?thesis by blast
  qed
qed

lemma lazy_passes:
  assumes "passes f gs"
  shows "lazy f gs n k x = Some z \<Longrightarrow> \<exists>y. k y = Some z \<and> frame gs x y"
proof (induction n arbitrary: x)
  case 0
  then show ?case by (auto intro: frame_refl)
next
  case (Suc n)
  show ?case
  proof (cases "k x")
    case (Some w)
    with Suc.prems have "k x = Some z" by simp
    then show ?thesis by (auto intro: frame_refl)
  next
    case None
    with Suc.prems have "f (progress x (lazy f gs n k)) (clear gs x) = Some z" by simp
    with assms obtain y1 where y1: "progress x (lazy f gs n k) y1 = Some z" "frame gs (clear gs x) y1"
      unfolding passes_def by blast
    from y1(1) have "lazy f gs n k y1 = Some z"
      by (simp add: progress_def split: if_splits)
    from Suc.IH[OF this] obtain y where "k y = Some z" "frame gs y1 y" by blast
    moreover have "frame gs x y"
      using frame_clear[of gs x] y1(2) \<open>frame gs y1 y\<close> by (simp add: frame_def)
    ultimately show ?thesis by blast
  qed
qed

lemma exactly_passes:
  assumes "passes f gs"
  shows "exactly f n k x = Some z \<Longrightarrow> \<exists>y. k y = Some z \<and> frame gs x y"
proof (induction n arbitrary: x k)
  case 0
  then show ?case by (auto intro: frame_refl)
next
  case (Suc n)
  then have "f (exactly f n k) x = Some z" by simp
  with assms obtain y1 where y1: "exactly f n k y1 = Some z" "frame gs x y1"
    unfolding passes_def by blast
  from Suc.IH[OF y1(1)] obtain y where "k y = Some z" "frame gs y1 y" by blast
  with y1(2) show ?case by (auto simp: frame_def)
qed

lemma m_passes: "passes (m r ic) (groups r)"
proof (induction r)
  case (Chr p)
  show ?case unfolding passes_def
    by (auto split: list.splits if_splits intro: frame_advance)
next
  case (Set cs)
  show ?case unfolding passes_def
    by (auto split: list.splits if_splits intro: frame_advance)
next
  case Eps
  show ?case unfolding passes_def by (auto intro: frame_refl)
next
  case (Seq a b)
  show ?case unfolding passes_def
  proof (intro allI impI)
    fix k x z assume "m (Seq a b) ic k x = Some z"
    then have "m a ic (m b ic k) x = Some z" by simp
    with Seq.IH(1) obtain y1 where y1: "m b ic k y1 = Some z" "frame (groups a) x y1"
      unfolding passes_def by blast
    with Seq.IH(2) obtain y where "k y = Some z" "frame (groups b) y1 y"
      unfolding passes_def by blast
    with y1(2) show "\<exists>y. k y = Some z \<and> frame (groups (Seq a b)) x y"
      by (auto simp: frame_def)
  qed
next
  case (Alt a b)
  show ?case unfolding passes_def
  proof (intro allI impI)
    fix k x z assume h: "m (Alt a b) ic k x = Some z"
    then consider "m a ic k x = Some z" | "m b ic k x = Some z"
      by (auto split: option.splits)
    then show "\<exists>y. k y = Some z \<and> frame (groups (Alt a b)) x y"
    proof cases
      case 1
      with Alt.IH(1) show ?thesis unfolding passes_def by (fastforce simp: frame_def)
    next
      case 2
      with Alt.IH(2) show ?thesis unfolding passes_def by (fastforce simp: frame_def)
    qed
  qed
next
  case (Star r)
  then show ?case unfolding passes_def[of "m (Star r) ic"]
    by (auto simp: greedy_star_def dest: greedy_passes)
next
  case (Plus r)
  show ?case unfolding passes_def
  proof (intro allI impI)
    fix k x z assume "m (Plus r) ic k x = Some z"
    then have "m r ic (greedy_star (m r ic) (groups r) k) (clear (groups r) x) = Some z" by simp
    with Plus.IH obtain y1 where y1: "greedy_star (m r ic) (groups r) k y1 = Some z"
       "frame (groups r) (clear (groups r) x) y1"
      unfolding passes_def by blast
    from greedy_passes[OF Plus.IH y1(1)[unfolded greedy_star_def]]
    obtain y where "k y = Some z" "frame (groups r) y1 y" by blast
    with y1(2) frame_clear[of "groups r" x]
    show "\<exists>y. k y = Some z \<and> frame (groups (Plus r)) x y"
      by (auto simp: frame_def)
  qed
next
  case (Opt r)
  then show ?case unfolding passes_def[of "m (Opt r) ic"]
    using greedy_passes[of "m r ic" "groups r" "Suc 0"] by auto
next
  case (LazyPlus r)
  show ?case unfolding passes_def
  proof (intro allI impI)
    fix k x z assume "m (LazyPlus r) ic k x = Some z"
    then have "m r ic (lazy_star (m r ic) (groups r) k) (clear (groups r) x) = Some z" by simp
    with LazyPlus.IH obtain y1 where y1: "lazy_star (m r ic) (groups r) k y1 = Some z"
       "frame (groups r) (clear (groups r) x) y1"
      unfolding passes_def by blast
    from lazy_passes[OF LazyPlus.IH y1(1)[unfolded lazy_star_def]]
    obtain y where "k y = Some z" "frame (groups r) y1 y" by blast
    with y1(2) frame_clear[of "groups r" x]
    show "\<exists>y. k y = Some z \<and> frame (groups (LazyPlus r)) x y"
      by (auto simp: frame_def)
  qed
next
  case (Rep n r)
  then show ?case unfolding passes_def[of "m (Rep n r) ic"]
    by (auto dest: exactly_passes)
next
  case (Grp i r)
  show ?case unfolding passes_def
  proof (intro allI impI)
    fix k x z assume "m (Grp i r) ic k x = Some z"
    then have "m r ic (close_group i x k) x = Some z" by simp
    with Grp.IH obtain y1 where y1: "close_group i x k y1 = Some z" "frame (groups r) x y1"
      unfolding passes_def by blast
    then have "k (y1\<lparr>captures := (captures y1)(i \<mapsto> between x y1)\<rparr>) = Some z"
      by (simp add: close_group_def)
    with y1(2) show "\<exists>y. k y = Some z \<and> frame (groups (Grp i r)) x y"
      by (intro exI[of _ "y1\<lparr>captures := (captures y1)(i \<mapsto> between x y1)\<rparr>"]) (auto simp: frame_def)
  qed
next
  case Bol
  show ?case unfolding passes_def by (auto split: if_splits intro: frame_refl)
next
  case Eol
  show ?case unfolding passes_def by (auto split: if_splits intro: frame_refl)
next
  case WordB
  show ?case unfolding passes_def by (auto split: if_splits intro: frame_refl)
qed

section \<open>The matcher moves forward\<close>

lemma later_refl: "later x x"
  by (simp add: later_def)

lemma later_trans: "later x y \<Longrightarrow> later y z \<Longrightarrow> later x z"
  by (auto simp: later_def)

lemma later_advance: "later x (advance x)"
  unfolding later_def advance_def
  by (cases "ahead x") (auto intro: exI[of _ "[hd (ahead x)]"])

lemma later_clear: "later (clear gs x) y \<Longrightarrow> later x y"
  by (simp add: later_def clear_def)

lemma later_captures: "later x y \<Longrightarrow> later x (y\<lparr>captures := c\<rparr>)"
  by (simp add: later_def)

lemma greedy_forward:
  assumes "forward f"
  shows "greedy f gs n k x = Some z \<Longrightarrow> \<exists>y. k y = Some z \<and> later x y"
proof (induction n arbitrary: x)
  case 0
  then show ?case by (auto intro: later_refl)
next
  case (Suc n)
  show ?case
  proof (cases "f (progress x (greedy f gs n k)) (clear gs x)")
    case None
    with Suc.prems have "k x = Some z" by simp
    then show ?thesis by (auto intro: later_refl)
  next
    case (Some w)
    with Suc.prems have "f (progress x (greedy f gs n k)) (clear gs x) = Some z" by simp
    with assms obtain y1 where y1: "progress x (greedy f gs n k) y1 = Some z" "later (clear gs x) y1"
      unfolding forward_def by blast
    from y1(1) have "greedy f gs n k y1 = Some z"
      by (simp add: progress_def split: if_splits)
    from Suc.IH[OF this] obtain y where "k y = Some z" "later y1 y" by blast
    with later_clear[OF y1(2)] show ?thesis by (blast intro: later_trans)
  qed
qed

lemma lazy_forward:
  assumes "forward f"
  shows "lazy f gs n k x = Some z \<Longrightarrow> \<exists>y. k y = Some z \<and> later x y"
proof (induction n arbitrary: x)
  case 0
  then show ?case by (auto intro: later_refl)
next
  case (Suc n)
  show ?case
  proof (cases "k x")
    case (Some w)
    with Suc.prems have "k x = Some z" by simp
    then show ?thesis by (auto intro: later_refl)
  next
    case None
    with Suc.prems have "f (progress x (lazy f gs n k)) (clear gs x) = Some z" by simp
    with assms obtain y1 where y1: "progress x (lazy f gs n k) y1 = Some z" "later (clear gs x) y1"
      unfolding forward_def by blast
    from y1(1) have "lazy f gs n k y1 = Some z"
      by (simp add: progress_def split: if_splits)
    from Suc.IH[OF this] obtain y where "k y = Some z" "later y1 y" by blast
    with later_clear[OF y1(2)] show ?thesis by (blast intro: later_trans)
  qed
qed

lemma exactly_forward:
  assumes "forward f"
  shows "exactly f n k x = Some z \<Longrightarrow> \<exists>y. k y = Some z \<and> later x y"
proof (induction n arbitrary: x k)
  case 0
  then show ?case by (auto intro: later_refl)
next
  case (Suc n)
  then have "f (exactly f n k) x = Some z" by simp
  with assms obtain y1 where y1: "exactly f n k y1 = Some z" "later x y1"
    unfolding forward_def by blast
  from Suc.IH[OF y1(1)] obtain y where "k y = Some z" "later y1 y" by blast
  with y1(2) show ?case by (blast intro: later_trans)
qed

lemma m_forward: "forward (m r ic)"
proof (induction r)
  case (Chr p)
  show ?case unfolding forward_def
    by (auto split: list.splits if_splits intro: later_advance)
next
  case (Set cs)
  show ?case unfolding forward_def
    by (auto split: list.splits if_splits intro: later_advance)
next
  case Eps
  show ?case unfolding forward_def by (auto intro: later_refl)
next
  case (Seq a b)
  show ?case unfolding forward_def
  proof (intro allI impI)
    fix k x z assume "m (Seq a b) ic k x = Some z"
    then have "m a ic (m b ic k) x = Some z" by simp
    with Seq.IH(1) obtain y1 where y1: "m b ic k y1 = Some z" "later x y1"
      unfolding forward_def by blast
    with Seq.IH(2) obtain y where "k y = Some z" "later y1 y"
      unfolding forward_def by blast
    with y1(2) show "\<exists>y. k y = Some z \<and> later x y"
      by (blast intro: later_trans)
  qed
next
  case (Alt a b)
  show ?case unfolding forward_def
  proof (intro allI impI)
    fix k x z assume h: "m (Alt a b) ic k x = Some z"
    then consider "m a ic k x = Some z" | "m b ic k x = Some z"
      by (auto split: option.splits)
    then show "\<exists>y. k y = Some z \<and> later x y"
    proof cases
      case 1
      with Alt.IH(1) show ?thesis unfolding forward_def by blast
    next
      case 2
      with Alt.IH(2) show ?thesis unfolding forward_def by blast
    qed
  qed
next
  case (Star r)
  then show ?case unfolding forward_def[of "m (Star r) ic"]
    by (auto simp: greedy_star_def dest: greedy_forward)
next
  case (Plus r)
  show ?case unfolding forward_def
  proof (intro allI impI)
    fix k x z assume "m (Plus r) ic k x = Some z"
    then have "m r ic (greedy_star (m r ic) (groups r) k) (clear (groups r) x) = Some z" by simp
    with Plus.IH obtain y1 where y1: "greedy_star (m r ic) (groups r) k y1 = Some z"
       "later (clear (groups r) x) y1"
      unfolding forward_def by blast
    from greedy_forward[OF Plus.IH y1(1)[unfolded greedy_star_def]]
    obtain y where "k y = Some z" "later y1 y" by blast
    with later_clear[OF y1(2)]
    show "\<exists>y. k y = Some z \<and> later x y"
      by (blast intro: later_trans)
  qed
next
  case (Opt r)
  then show ?case unfolding forward_def[of "m (Opt r) ic"]
    using greedy_forward[of "m r ic" "groups r" "Suc 0"] by auto
next
  case (LazyPlus r)
  show ?case unfolding forward_def
  proof (intro allI impI)
    fix k x z assume "m (LazyPlus r) ic k x = Some z"
    then have "m r ic (lazy_star (m r ic) (groups r) k) (clear (groups r) x) = Some z" by simp
    with LazyPlus.IH obtain y1 where y1: "lazy_star (m r ic) (groups r) k y1 = Some z"
       "later (clear (groups r) x) y1"
      unfolding forward_def by blast
    from lazy_forward[OF LazyPlus.IH y1(1)[unfolded lazy_star_def]]
    obtain y where "k y = Some z" "later y1 y" by blast
    with later_clear[OF y1(2)]
    show "\<exists>y. k y = Some z \<and> later x y"
      by (blast intro: later_trans)
  qed
next
  case (Rep n r)
  then show ?case unfolding forward_def[of "m (Rep n r) ic"]
    by (auto dest: exactly_forward)
next
  case (Grp i r)
  show ?case unfolding forward_def
  proof (intro allI impI)
    fix k x z assume "m (Grp i r) ic k x = Some z"
    then have "m r ic (close_group i x k) x = Some z" by simp
    with Grp.IH obtain y1 where y1: "close_group i x k y1 = Some z" "later x y1"
      unfolding forward_def by blast
    then have "k (y1\<lparr>captures := (captures y1)(i \<mapsto> between x y1)\<rparr>) = Some z"
      by (simp add: close_group_def)
    with later_captures[OF y1(2)] show "\<exists>y. k y = Some z \<and> later x y"
      by blast
  qed
next
  case Bol
  show ?case unfolding forward_def by (auto split: if_splits intro: later_refl)
next
  case Eol
  show ?case unfolding forward_def by (auto split: if_splits intro: later_refl)
next
  case WordB
  show ?case unfolding forward_def by (auto split: if_splits intro: later_refl)
qed

text \<open>Where a match at an index ends.\<close>

lemma match_at_later:
  assumes "match_at R pre cs = Some y"
  shows "\<exists>v. cs = v @ ahead y \<and> behind y = rev v @ pre"
proof -
  from assms m_forward[of "pattern R" "ignoreCase R"]
  obtain y' where "Some y' = Some y"
    and "later \<lparr>behind = pre, ahead = cs, captures = (\<lambda>_. None)\<rparr> y'"
    unfolding forward_def match_at_def by metis
  then show ?thesis by (simp add: later_def)
qed

lemma search_later:
  assumes "search R pre cs = Some (x, y)"
  shows "\<exists>u v. cs = u @ v @ ahead y \<and> behind y = rev v @ rev u @ pre \<and>
    x = \<lparr>behind = rev u @ pre, ahead = v @ ahead y, captures = (\<lambda>_. None)\<rparr>"
  using assms
proof (induction cs arbitrary: pre)
  case Nil
  then obtain y' where y': "match_at R pre [] = Some y'"
    by (auto split: option.splits)
  with Nil have xy: "x = \<lparr>behind = pre, ahead = [], captures = (\<lambda>_. None)\<rparr>" "y = y'"
    by auto
  from match_at_later[OF y'] xy show ?case by auto
next
  case (Cons c cs)
  show ?case
  proof (cases "match_at R pre (c # cs)")
    case None
    with Cons.prems have "search R (c # pre) cs = Some (x, y)" by simp
    from Cons.IH[OF this] obtain u v where
      "cs = u @ v @ ahead y" "behind y = rev v @ rev u @ c # pre"
      "x = \<lparr>behind = rev u @ c # pre, ahead = v @ ahead y, captures = (\<lambda>_. None)\<rparr>"
      by blast
    then show ?thesis
      by (intro exI[of _ "c # u"] exI[of _ v]) simp
  next
    case (Some y')
    with Cons.prems have xy: "x = \<lparr>behind = pre, ahead = c # cs, captures = (\<lambda>_. None)\<rparr>"
      "y = y'" by auto
    from match_at_later[OF Some] obtain v where "c # cs = v @ ahead y'" "behind y' = rev v @ pre"
      by blast
    with xy show ?thesis
      by (intro exI[of _ "[]"] exI[of _ v]) simp
  qed
qed

section \<open>The extractors never fail\<close>

lemma m_seqs_Nil: "m (seqs []) ic k x = k x"
  by (simp add: seqs_def)

lemma m_seqs_Cons: "m (seqs (r # rs)) ic k x = m r ic (m (seqs rs) ic k) x"
  by (simp add: seqs_def)

lemma groups_lit: "groups (lit w) = []"
  by (induction w) (simp_all add: lit_def)

lemma groups_seqs: "groups (seqs rs) = concat (map groups rs)"
  by (induction rs) (simp_all add: seqs_def)

lemma peel:
  assumes "m (seqs (r # rs)) ic k x = Some z"
  shows "\<exists>y. m (seqs rs) ic k y = Some z \<and> frame (groups r) x y"
  using assms m_passes[of r ic] unfolding passes_def m_seqs_Cons by blast

lemma peel2:
  assumes "m (seqs (a # b # rs)) ic k x = Some z"
  shows "\<exists>y. m (seqs rs) ic k y = Some z"
proof -
  from peel[OF assms] obtain y1 where "m (seqs (b # rs)) ic k y1 = Some z" by blast
  from peel[OF this] show ?thesis by blast
qed

lemma peel4:
  assumes "m (seqs (a # b # c # d # rs)) ic k x = Some z"
  shows "\<exists>y. m (seqs rs) ic k y = Some z"
proof -
  from peel2[OF assms] obtain y1 where "m (seqs (c # d # rs)) ic k y1 = Some z" by blast
  from peel2[OF this] show ?thesis by blast
qed

lemma peel_group:
  assumes "m (seqs (Grp i r # rs)) ic k x = Some z"
  shows "\<exists>y. m (seqs rs) ic k y = Some z \<and> captures y i \<noteq> None"
proof -
  from assms have "m r ic (close_group i x (m (seqs rs) ic k)) x = Some z"
    by (simp add: m_seqs_Cons)
  with m_passes[of r ic] obtain y where "close_group i x (m (seqs rs) ic k) y = Some z"
    unfolding passes_def by blast
  then show ?thesis
    by (intro exI[of _ "y\<lparr>captures := (captures y)(i \<mapsto> between x y)\<rparr>"])
       (simp add: close_group_def)
qed

lemma finish:
  assumes "m (seqs rs) ic Some y = Some z"
  shows "frame (groups (seqs rs)) y z"
  using assms m_passes[of "seqs rs" ic] unfolding passes_def by blast

lemma search_match_at:
  "search R pre cs = Some (x, y) \<Longrightarrow> \<exists>pre' cs'. match_at R pre' cs' = Some y"
  by (induction cs arbitrary: pre) (auto split: option.splits)

lemma re_match_captures:
  assumes "re_match R s = Some a"
  shows "\<exists>x y. m (pattern R) (ignoreCase R) Some x = Some y \<and> capture a = captures y"
proof -
  from assms obtain x y where xy: "search R [] s = Some (x, y)" and a: "capture a = captures y"
    by (auto simp: re_match_def split: option.splits)
  from search_match_at[OF xy] show ?thesis using a by (auto simp: match_at_def)
qed

lemma re_colon_captures:
  assumes "re_match re_colon s = Some a"
  shows "capture a 1 \<noteq> None \<and> capture a 2 \<noteq> None"
proof -
  from re_match_captures[OF assms] obtain x z
    where z: "m (pattern re_colon) True Some x = Some z" and a: "capture a = captures z"
    by (auto simp: re_colon_def regex_i_def)
  have "\<exists>y. m (seqs [Grp 1 (LazyPlus (Set CDot)), lit '':'', Star (Set CSpace),
      Grp 2 (Plus (Set CDot))]) True Some y = Some z"
    using z unfolding re_colon_def regex_i_def by (intro peel4[of WordB _ _ _ _ True Some x]) simp
  then obtain y1 where "m (seqs [Grp 1 (LazyPlus (Set CDot)), lit '':'', Star (Set CSpace),
      Grp 2 (Plus (Set CDot))]) True Some y1 = Some z" ..
  from peel_group[OF this] obtain y2 where y2: "m (seqs [lit '':'', Star (Set CSpace),
      Grp 2 (Plus (Set CDot))]) True Some y2 = Some z" "captures y2 1 \<noteq> None"
    by blast
  from finish[OF y2(1)] y2(2) have c1: "captures z 1 \<noteq> None"
    by (simp add: frame_def groups_seqs groups_lit)
  from peel2[OF y2(1)] obtain y3 where "m (seqs [Grp 2 (Plus (Set CDot))]) True Some y3 = Some z"
    by blast
  from peel_group[OF this] have "captures z 2 \<noteq> None"
    by (auto simp: m_seqs_Nil)
  with c1 a show ?thesis by simp
qed

lemma re_simple_captures:
  assumes "re_match re_simple s = Some a"
  shows "capture a 1 \<noteq> None"
proof -
  from re_match_captures[OF assms] obtain x z
    where z: "m (pattern re_simple) True Some x = Some z" and a: "capture a = captures z"
    by (auto simp: re_simple_def regex_i_def)
  have "\<exists>y. m (seqs [Grp 1 (Plus (Set CDot))]) True Some y = Some z"
    using z unfolding re_simple_def regex_i_def by (intro peel4[of WordB _ _ _ _ True Some x]) simp
  then obtain y1 where "m (seqs [Grp 1 (Plus (Set CDot))]) True Some y1 = Some z" ..
  from peel_group[OF this] have "captures z 1 \<noteq> None"
    by (auto simp: m_seqs_Nil)
  with a show ?thesis by simp
qed

lemma knowledge_create_extract_total: "\<exists>t c. knowledge_create_extract s = Inr (KnowledgeCreate t c)"
  using re_colon_captures[of s] re_simple_captures[of s]
  by (auto simp: knowledge_create_extract_def Let_def split: option.splits)

lemma first_match_total:
  assumes "\<forall>r \<in> set rs. \<forall>s. \<exists>d. extractor r s = Inr d"
  shows "first_match rs s \<noteq> Some (Inl e)"
  using assms
proof (induction rs)
  case Nil
  then show ?case by simp
next
  case (Cons r rs)
  from Cons.prems have "\<forall>s. \<exists>d. extractor r s = Inr d" by simp
  then obtain d where "extractor r s = Inr d" by blast
  moreover from Cons have "first_match rs s \<noteq> Some (Inl e)" by simp
  ultimately show ?case by simp
qed

lemma INTENT_RULES_total: "\<forall>r \<in> set INTENT_RULES. \<forall>s. \<exists>d. extractor r s = Inr d"
  using knowledge_create_extract_total
  by (auto simp: INTENT_RULES_def approve_extract_def deny_extract_def approvals_list_extract_def
     approvals_request_extract_def knowledge_list_extract_def knowledge_search_extract_def
     requests_list_extract_def requests_create_extract_def status_extract_def Let_def)


section \<open>The dispatcher\<close>

lemma first_match_None: "first_match rs s = None \<longleftrightarrow> (\<forall>r \<in> set rs. \<not> test r s)"
  by (induction rs) auto

text \<open>
  Claim C10. For every input \<open>x\<close>, classifying \<open>x\<close> and classifying the trimmed \<open>x\<close> give the
  same result: \<open>detectIntent\<close> trims its argument before every test, so the caller need
  not trim.
\<close>

theorem detectIntent_trim: "detectIntent (trim x) = detectIntent x"
  by (simp add: detectIntent_def trim_idem)

section \<open>Rounding to a double\<close>

lemma floor_rat_numeral: "\<lfloor>numeral a / numeral b :: rat\<rfloor> = numeral a div numeral b"
  using floor_divide_of_int_eq[of "numeral a" "numeral b", where ?'a = rat] by simp

lemma powi_2: "(2::rat) powi e = (if 0 \<le> e then 2 ^ nat e else 1 / 2 ^ nat (- e))"
  by (simp add: power_int_def power_one_over inverse_eq_divide)

lemma bits_bounds: "0 < n \<Longrightarrow> 2 ^ (bits n - 1) \<le> n \<and> n < 2 ^ bits n"
proof (induction n rule: bits.induct)
  case (1 n)
  show ?case
  proof (cases "n div 2 = 0")
    case True
    with 1(2) have "n = 1" by presburger
    then show ?thesis by (simp add: bits.simps)
  next
    case False
    with 1 have ih: "2 ^ (bits (n div 2) - 1) \<le> n div 2" "n div 2 < 2 ^ bits (n div 2)"
      by simp_all
    have b: "bits n = Suc (bits (n div 2))"
      using 1(2) by (subst bits.simps) simp
    from False have "0 < bits (n div 2)"
      by (subst bits.simps) simp
    then have "bits (n div 2) = Suc (bits (n div 2) - 1)"
      by simp
    then have "(2::nat) ^ bits (n div 2) = 2 * 2 ^ (bits (n div 2) - 1)"
      by (metis power_Suc)
    with ih(1) have "2 ^ bits (n div 2) \<le> 2 * (n div 2)" by simp
    then have lo: "2 ^ (bits n - 1) \<le> n" by (simp add: b)
    from ih(2) have "n < 2 * 2 ^ bits (n div 2)" by presburger
    with lo show ?thesis by (simp add: b)
  qed
qed

lemma round_half_even_of_int: "round_half_even (of_int k) = k"
  by (simp add: round_half_even_def)

lemma floor_le_round_half_even: "\<lfloor>q\<rfloor> \<le> round_half_even q"
  by (simp add: round_half_even_def Let_def)

lemma binary_exponent_nat:
  assumes "0 < n"
  shows "binary_exponent (of_nat n) = int (bits n) - 1"
  using assms by (simp add: binary_exponent_def)

lemma number_value_exact:
  assumes "n < 2 ^ 53"
  shows "number_value False (of_nat n) = Finite (of_nat n)"
proof -
  define e where "e = max (binary_exponent (of_nat n)) (- 1022)"
  define ulp :: rat where "ulp = 2 powi (e - 52)"
  have ulp: "0 < ulp" by (simp add: ulp_def)
  have "\<exists>k. of_nat n / ulp = of_int k"
  proof (cases "n = 0")
    case True
    then show ?thesis by (intro exI[of _ 0]) simp
  next
    case False
    then have n: "0 < n" by simp
    from bits_bounds[OF n] assms have "(2::nat) ^ (bits n - 1) < 2 ^ 53" by simp
    then have "bits n - 1 < 53" by (simp only: power_strict_increasing_iff) 
    moreover from n have "0 < bits n" by (subst bits.simps) simp
    ultimately have "e = int (bits n) - 1" and le: "e \<le> 52" and "0 \<le> e"
      using binary_exponent_nat[OF n] by (auto simp: e_def)
    have "1 / ulp = 2 powi (52 - e)"
      unfolding ulp_def by (simp add: power_int_diff)
    also have "\<dots> = 2 ^ nat (52 - e)"
      using le by (simp add: power_int_def)
    finally have "1 / ulp = 2 ^ nat (52 - e)" .
    then have "of_nat n * (1 / ulp) = of_nat n * 2 ^ nat (52 - e)"
      by (simp only:)
    then have "of_nat n / ulp = of_int (int n * 2 ^ nat (52 - e))"
      by simp
    then show ?thesis by blast
  qed
  then obtain k where k: "of_nat n / ulp = of_int k" ..
  have "of_int (round_half_even (of_nat n / ulp)) * ulp = of_int k * ulp"
    by (simp only: k round_half_even_of_int)
  also have "\<dots> = of_nat n / ulp * ulp"
    by (simp only: k)
  also have "\<dots> = of_nat n"
    using ulp by simp
  finally have v: "of_int (round_half_even (of_nat n / ulp)) * ulp = of_nat n" .
  have "(of_nat n :: rat) < of_nat (2 ^ 53)"
    using assms by (simp only: of_nat_less_iff)
  also have "\<dots> \<le> 2 ^ 1024" by simp
  finally have "\<not> (2 ^ 1024 :: rat) \<le> of_nat n" by simp
  with v show ?thesis
    unfolding number_value_def Let_def e_def[symmetric] ulp_def[symmetric] by simp
qed

lemma number_value_overflow:
  assumes "2 ^ 1024 \<le> q"
  shows "number_value neg q = Infinity neg"
proof -
  define n where "n = nat \<lfloor>q\<rfloor>"
  define e where "e = max (binary_exponent q) (- 1022)"
  define ulp :: rat where "ulp = 2 powi (e - 52)"
  have ulp: "0 < ulp" by (simp add: ulp_def)
  from assms have q1: "1 \<le> q" by (rule order_trans[rotated]) simp
  then have "1 \<le> \<lfloor>q\<rfloor>" by simp
  then have n: "0 < n" and nq: "of_nat n \<le> q" and fl: "\<lfloor>q\<rfloor> = int n"
    by (simp_all add: n_def)
  have "(2::int) ^ 1024 \<le> \<lfloor>q\<rfloor>"
    using assms by (simp add: le_floor_iff)
  then have "2 ^ 1024 \<le> n" unfolding fl by (metis of_nat_le_iff of_nat_numeral of_nat_power)
  with bits_bounds[OF n] have "(2::nat) ^ 1024 < 2 ^ bits n" by simp
  then have "1024 < bits n" by (simp only: power_strict_increasing_iff)
  then have e: "e = int (bits n) - 1" and e1024: "1024 \<le> e"
    using q1 by (auto simp: e_def binary_exponent_def n_def)
  from bits_bounds[OF n] have "(of_nat (2 ^ (bits n - 1)) :: rat) \<le> of_nat n"
    by (simp only: of_nat_le_iff)
  from this nq have "of_nat (2 ^ (bits n - 1)) \<le> q" by (rule order_trans)
  then have "2 ^ (bits n - 1) \<le> q" by simp
  moreover have "(2::rat) ^ (bits n - 1) = 2 powi e"
    using e1024 unfolding e by (simp add: power_int_def nat_diff_distrib')
  ultimately have "2 powi e \<le> q" by simp
  then have "2 powi e / ulp \<le> q / ulp"
    using ulp by (simp add: divide_right_mono)
  moreover have "2 powi e / ulp = (2 ^ 52 :: rat)"
    unfolding ulp_def by (simp add: power_int_diff)
  ultimately have "(2 ^ 52 :: rat) \<le> q / ulp" by simp
  then have "(2::int) ^ 52 \<le> \<lfloor>q / ulp\<rfloor>" by (simp add: le_floor_iff)
  from this floor_le_round_half_even[of "q / ulp"] have "2 ^ 52 \<le> round_half_even (q / ulp)"
    by (rule order_trans)
  then have "(of_int (2 ^ 52) :: rat) \<le> of_int (round_half_even (q / ulp))"
    by (simp only: of_int_le_iff)
  then have "2 ^ 52 * ulp \<le> of_int (round_half_even (q / ulp)) * ulp"
    using ulp by (simp add: mult_right_mono)
  moreover have "2 ^ 52 * ulp = 2 powi e"
    unfolding ulp_def by (simp add: power_int_diff)
  moreover have "(2::rat) ^ 1024 \<le> 2 powi e"
  proof -
    from e1024 have "1024 \<le> nat e" by simp
    then have "(2::rat) ^ 1024 \<le> 2 ^ nat e" by (rule power_increasing) simp
    also from e1024 have "(2::rat) ^ nat e = 2 powi e" by (simp only: power_int_def) simp
    finally show ?thesis .
  qed
  ultimately have "2 ^ 1024 \<le> of_int (round_half_even (q / ulp)) * ulp" by simp
  then show ?thesis
    unfolding number_value_def Let_def e_def[symmetric] ulp_def[symmetric] by simp
qed

section \<open>Running the model on an input\<close>

text \<open>
  The rewrite rules that evaluate the model on a concrete input: the definitions of the
  model and the computation rules of lists, options, naturals and numerals, and no others.
\<close>

lemma js_Nil: "js [] = []"
  by (simp add: js_def)

lemma js_Cons: "js (c # cs) = of_char c # js cs"
  by (simp add: js_def)

lemma lit_Nil: "lit [] = Eps"
  by (simp add: lit_def)

lemma lit_Cons: "lit (c # cs) = Seq (Chr (of_char c)) (lit cs)"
  by (simp add: lit_def)

lemma seqs_Nil: "seqs [] = Eps"
  by (simp add: seqs_def)

lemma seqs_Cons: "seqs (r # rs) = Seq r (seqs rs)"
  by (simp add: seqs_def)

lemma exactly_2: "exactly f 2 k = f (f k)"
  by (simp add: numeral_2_eq_2)

lemma clear_Nil: "clear [] x = x"
  by (simp add: clear_def)

lemmas pattern_defs =
  regex_def regex_i_def regex_g_def regex_gi_def
  re_approve_token_def re_request_for_need_def re_approve_id_def re_deny_token_def
  re_deny_id_def re_show_approvals_def re_pending_def re_request_approval_def
  re_approval_for_def re_approve_a_def re_request_approval_for_def re_approval_for_strip_def
  re_amount_def re_dollar_comma_def re_request_approval_start_def re_store_def
  re_request_approval_word_def re_colon_def re_simple_def re_spaces_def re_list_knowledge_def
  re_question_def re_approval_request_pending_def re_question_prefix_def re_article_def
  re_question_marks_def re_show_requests_def re_open_def re_create_request_def
  re_request_to_def re_need_def re_approval_def re_create_request_for_def
  re_request_to_strip_def re_need_strip_def re_urgent_def re_high_def re_low_def
  re_priority_words_def re_status_def

lemmas rule_defs =
  INTENT_RULES_def
  approve_test_def approve_extract_def deny_test_def deny_extract_def
  approvals_list_test_def approvals_list_extract_def
  approvals_request_test_def approvals_request_extract_def
  knowledge_create_test_def knowledge_create_extract_def
  knowledge_list_test_def knowledge_list_extract_def
  knowledge_search_test_def knowledge_search_extract_def
  requests_list_test_def requests_list_extract_def
  requests_create_test_def requests_create_extract_def
  status_test_def status_extract_def

lemmas run_simps =
  js_Nil js_Cons lit_Nil lit_Cons seqs_Nil seqs_Cons pattern_defs rule_defs
  of_char_Char horner_sum_simps of_bool_eq add_numeral_special
  mult_1_left mult_1_right mult_zero_right mult_zero_left add_0_left add_0_right
  is_space_def is_digit_def is_word_char_def is_line_terminator_def canonicalize_def
  advance_def chr_matches_def between_def is_word_boundary_def clear_Nil clear_def
  progress_def greedy_star_def lazy_star_def close_group_def exactly_2
  match_at_def re_test_def re_match_def re_replace_def re_split_def trim_def endsWith_def Let_def
  m.simps greedy.simps lazy.simps exactly.simps search.simps in_cset.simps groups.simps alts.simps
  replace_from.simps split_from.simps first_match.simps join.simps contains.simps
  mstate.simps regexp.simps match_result.simps rule.simps
  list.case option.case prod.case sum.case if_True if_False option.distinct option.inject
  list.size list.distinct list.inject list.set fun_upd_apply
  append.simps rev.simps dropWhile.simps takeWhile.simps take_Suc_Cons take_0 take.simps(1)
  drop_Suc_Cons drop_0 drop.simps(1)
  simp_thms de_Morgan_conj de_Morgan_disj not_not empty_iff insert_iff
  add_Suc_right nat.inject nat.distinct Suc_less_eq zero_less_Suc not_less0 less_nat_zero_code
  Suc_le_mono le0 not_less_eq_eq diff_Suc_Suc diff_zero minus_nat.diff_0 diff_0_eq_0
  less_Suc_numeral less_numeral_Suc le_Suc_numeral le_numeral_Suc pred_numeral_simps
  Suc_eq_numeral eq_numeral_Suc
  arith_simps rel_simps diff_nat_numeral nat_numeral

lemmas run_congs =
  if_weak_cong option.case_cong_weak list.case_cong_weak sum.case_cong_weak

lemmas number_defs =
  js_def digits_val_def split_sign_def exponent_def parseFloat_def is_digit_def is_space_def
  number_value_def binary_exponent_def round_half_even_def bits.simps floor_rat_numeral powi_2
  Let_def

lemma detectIntent_matched:
  assumes "trim input = s" and "first_match INTENT_RULES s = Some (Inr r)"
  shows "detectIntent input = Inr (Some r)"
  using assms by (simp add: detectIntent_def)

lemma detectIntent_unmatched:
  assumes "trim input = s" and "first_match INTENT_RULES s = None"
  shows "detectIntent input =
    (if endsWith s (js ''?'') \<or> length s < 80
     then Inr (Some (knowledge_search, KnowledgeSearch (trim (re_replace re_question_marks s))))
     else Inr None)"
  using assms by (simp add: detectIntent_def)

subsection \<open>create a request to schedule HVAC inspection urgently\<close>

lemma trim_hvac_urgently:
  "trim (js ''create a request to schedule HVAC inspection urgently'') =
   js ''create a request to schedule HVAC inspection urgently''"
  by (simp only: run_simps cong: run_congs)

lemma first_match_hvac_urgently:
  "first_match INTENT_RULES (js ''create a request to schedule HVAC inspection urgently'') =
   Some (Inr (requests_create, RequestCreate (js ''HVAC inspection urgently'')
     (js ''create a request to schedule HVAC inspection urgently'') (js ''medium'')))"
  by (simp only: run_simps cong: run_congs)

lemma detectIntent_hvac_urgently:
  "detectIntent (js ''create a request to schedule HVAC inspection urgently'') =
   Inr (Some (requests_create, RequestCreate (js ''HVAC inspection urgently'')
     (js ''create a request to schedule HVAC inspection urgently'') (js ''medium'')))"
  by (rule detectIntent_matched[OF trim_hvac_urgently first_match_hvac_urgently])

lemma trim_hvac_urgent:
  "trim (js ''create a request to schedule HVAC inspection urgent'') =
   js ''create a request to schedule HVAC inspection urgent''"
  by (simp only: run_simps cong: run_congs)

lemma first_match_hvac_urgent:
  "first_match INTENT_RULES (js ''create a request to schedule HVAC inspection urgent'') =
   Some (Inr (requests_create, RequestCreate (js ''HVAC inspection'')
     (js ''create a request to schedule HVAC inspection urgent'') (js ''critical'')))"
  by (simp only: run_simps cong: run_congs)

text \<open>
  Claim C1, as stated, fails: on the input of the claim the priority is \<open>medium\<close>, not
  \<open>critical\<close>, and the title keeps the word \<open>urgently\<close>. The urgency words are matched
  between word boundaries, and \<open>urgently\<close> is none of them.
\<close>

theorem hvac_urgently_not_critical:
  "detectIntent (js ''create a request to schedule HVAC inspection urgently'') =
     Inr (Some (requests_create, RequestCreate (js ''HVAC inspection urgently'')
       (js ''create a request to schedule HVAC inspection urgently'') (js ''medium''))) \<and>
   js ''medium'' \<noteq> js ''critical'' \<and>
   contains (js ''HVAC inspection urgently'') (js ''urgently'')"
proof -
  have "js ''medium'' \<noteq> js ''critical''"
    by (simp only: run_simps cong: run_congs)
  moreover have "contains (js ''HVAC inspection urgently'') (js ''urgently'')"
    by (simp only: run_simps cong: run_congs)
  ultimately show ?thesis
    using detectIntent_hvac_urgently by simp
qed

text \<open>
  Claim C1, amended. For the input \<open>create a request to schedule HVAC inspection urgently\<close>
  the classification is a request creation with priority \<open>medium\<close> and the title
  \<open>HVAC inspection urgently\<close>. With the urgency word itself, \<open>urgent\<close>, at the end, the
  priority is \<open>critical\<close> and the title, \<open>HVAC inspection\<close>, does not contain the word.
\<close>

theorem hvac_priority:
  "detectIntent (js ''create a request to schedule HVAC inspection urgently'') =
     Inr (Some (requests_create, RequestCreate (js ''HVAC inspection urgently'')
       (js ''create a request to schedule HVAC inspection urgently'') (js ''medium''))) \<and>
   detectIntent (js ''create a request to schedule HVAC inspection urgent'') =
     Inr (Some (requests_create, RequestCreate (js ''HVAC inspection'')
       (js ''create a request to schedule HVAC inspection urgent'') (js ''critical''))) \<and>
   \<not> contains (js ''HVAC inspection'') (js ''urgent'')"
proof -
  have "\<not> contains (js ''HVAC inspection'') (js ''urgent'')"
    by (simp only: run_simps cong: run_congs)
  then show ?thesis
    using detectIntent_hvac_urgently
      detectIntent_matched[OF trim_hvac_urgent first_match_hvac_urgent]
    by simp
qed

subsection \<open>request approval for $5,000 vendor payment\<close>

lemma trim_vendor_payment:
  "trim (js ''request approval for $5,000 vendor payment'') =
   js ''request approval for $5,000 vendor payment''"
  by (simp only: run_simps cong: run_congs)

lemma first_match_vendor_payment:
  "first_match INTENT_RULES (js ''request approval for $5,000 vendor payment'') =
   Some (Inr (approvals_request, ApprovalRequest (js ''$5,000 vendor payment'')
     (js ''request approval for $5,000 vendor payment'') (Some (Finite 5000))))"
  apply (simp only: run_simps cong: run_congs)
  apply (simp add: number_defs)
  done

text \<open>
  Claim C6. For the input \<open>request approval for $5,000 vendor payment\<close> the classification
  is an approval request with the amount 5000, a title that contains \<open>vendor payment\<close>,
  and the whole input as the description.
\<close>

theorem vendor_payment_amount:
  "detectIntent (js ''request approval for $5,000 vendor payment'') =
     Inr (Some (approvals_request, ApprovalRequest (js ''$5,000 vendor payment'')
       (js ''request approval for $5,000 vendor payment'') (Some (Finite 5000)))) \<and>
   contains (js ''$5,000 vendor payment'') (js ''vendor payment'')"
proof -
  have "contains (js ''$5,000 vendor payment'') (js ''vendor payment'')"
    by (simp only: run_simps cong: run_congs)
  then show ?thesis
    using detectIntent_matched[OF trim_vendor_payment first_match_vendor_payment] by simp
qed

section \<open>What the patterns match\<close>

subsection \<open>Trailing question marks\<close>

lemma m_question:
  "m (lit ''?'') False k \<lparr>behind = pre, ahead = cs, captures = cap\<rparr> =
   (case cs of [] \<Rightarrow> None
    | c # cs' \<Rightarrow> if c = 63 then k \<lparr>behind = c # pre, ahead = cs', captures = cap\<rparr> else None)"
  by (simp add: lit_def chr_matches_def advance_def split: list.splits)

lemma m_end: "m (seqs [Eol]) False Some x = (if ahead x = [] then Some x else None)"
  by (simp add: seqs_def)

lemma question_run:
  "greedy (m (lit ''?'') False) [] (length cs) (m (seqs [Eol]) False Some)
     \<lparr>behind = pre, ahead = cs, captures = cap\<rparr> =
   (if \<forall>c \<in> set cs. c = 63
    then Some \<lparr>behind = rev cs @ pre, ahead = [], captures = cap\<rparr> else None)"
proof (induction cs arbitrary: pre)
  case Nil
  show ?case by (simp only: list.size greedy.simps m_end) simp
next
  case (Cons c cs)
  show ?case
  proof (cases "c = 63")
    case True
    with Cons.IH[of "c # pre"] show ?thesis
      by (simp only: list.size add_Suc_right add_0_right greedy.simps clear_Nil m_question
          m_end list.case progress_def) simp
  next
    case False
    then show ?thesis
      by (simp only: list.size add_Suc_right add_0_right greedy.simps clear_Nil m_question
          m_end list.case progress_def) simp
  qed
qed

lemma match_at_question_marks:
  "match_at re_question_marks pre cs =
   (if cs \<noteq> [] \<and> (\<forall>c \<in> set cs. c = 63)
    then Some \<lparr>behind = rev cs @ pre, ahead = [], captures = (\<lambda>_. None)\<rparr> else None)"
proof -
  have "match_at re_question_marks pre cs =
      m (lit ''?'') False (greedy_star (m (lit ''?'') False) [] (m (seqs [Eol]) False Some))
        \<lparr>behind = pre, ahead = cs, captures = (\<lambda>_. None)\<rparr>"
    by (simp only: match_at_def re_question_marks_def regex_def regexp.simps seqs_Cons m.simps
        groups_lit clear_Nil)
  also have "\<dots> = (if cs \<noteq> [] \<and> (\<forall>c \<in> set cs. c = 63)
    then Some \<lparr>behind = rev cs @ pre, ahead = [], captures = (\<lambda>_. None)\<rparr> else None)"
  proof (cases cs)
    case Nil
    then show ?thesis by (simp only: m_question) simp
  next
    case (Cons c cs')
    show ?thesis
      using question_run[of cs' "c # pre" "\<lambda>_. None"]
      by (simp only: Cons m_question greedy_star_def list.case mstate.simps) simp
  qed
  finally show ?thesis .
qed

lemma strip_step:
  "\<not> (\<forall>x \<in> set (c # cs). P x) \<Longrightarrow>
   rev (dropWhile P (rev (c # cs))) = c # rev (dropWhile P (rev cs))"
  by (auto simp: dropWhile_append)

lemma search_question_marks:
  "(case search re_question_marks pre cs of
      None \<Rightarrow> rev pre @ cs
    | Some (x, y) \<Rightarrow> rev (behind x) @ ahead y) = rev pre @ strip_question_marks cs"
proof (induction cs arbitrary: pre)
  case Nil
  show ?case by (simp add: match_at_question_marks strip_question_marks_def)
next
  case (Cons c cs)
  show ?case
  proof (cases "\<forall>x \<in> set (c # cs). x = 63")
    case True
    then have "dropWhile (\<lambda>c. c = 63) (rev (c # cs)) = []"
      by (simp add: dropWhile_append)
    with True show ?thesis
      by (simp add: match_at_question_marks strip_question_marks_def)
  next
    case False
    from strip_step[OF False] False Cons.IH[of "c # pre"] show ?thesis
      by (auto simp: match_at_question_marks strip_question_marks_def split: option.splits)
  qed
qed

lemma re_replace_question_marks: "re_replace re_question_marks s = strip_question_marks s"
  using search_question_marks[of "[]" s]
  by (simp add: re_replace_def re_question_marks_def regex_def split: option.splits prod.splits)

subsection \<open>Runs of a class and literals\<close>

lemma m_Set_one: "m (Set cs) ic = one (in_cset cs)"
  by (intro ext) (simp add: one_def)

lemma m_Chr_one: "m (Chr p) ic = one (chr_matches ic p)"
  by (intro ext) (simp add: one_def)

lemma skip_Nil: "skip [] x = x"
  by (simp add: skip_def)

lemma skip_Cons: "ahead x = c # cs \<Longrightarrow> skip (c # v) x = skip v (advance x)"
  by (simp add: skip_def advance_def)

lemma skip_append: "skip (u @ v) x = skip v (skip u x)"
  by (simp add: skip_def add.commute)

lemma ahead_skip: "ahead x = v @ r \<Longrightarrow> ahead (skip v x) = r"
  by (simp add: skip_def)

lemma behind_skip: "behind (skip v x) = rev v @ behind x"
  by (simp add: skip_def)

lemma captures_skip: "captures (skip v x) = captures x"
  by (simp add: skip_def)

lemma between_skip: "ahead x = v @ r \<Longrightarrow> between x (skip v x) = v"
  by (simp add: between_def skip_def)

lemma one_hit: "ahead x = c # cs \<Longrightarrow> P c \<Longrightarrow> one P k x = k (advance x)"
  by (simp add: one_def)

lemma one_miss: "ahead x = [] \<or> \<not> P (hd (ahead x)) \<Longrightarrow> one P k x = None"
  by (cases "ahead x") (auto simp: one_def)

lemma ahead_advance: "ahead x = c # cs \<Longrightarrow> ahead (advance x) = cs"
  by (simp add: advance_def)

text \<open>A greedy run over a class goes to the end of the run, if the continuation accepts that.\<close>

lemma greedy_one_max:
  assumes "ahead x = run @ rest" and "\<forall>c \<in> set run. P c" and "rest = [] \<or> \<not> P (hd rest)"
    and "k (skip run x) = Some z" and "length run \<le> n"
  shows "greedy (one P) [] n k x = Some z"
  using assms
proof (induction run arbitrary: x n)
  case Nil
  then have kx: "k x = Some z" and miss: "one P g x = None" for g
    by (auto simp: skip_Nil intro!: one_miss)
  show ?case
    by (cases n) (simp_all add: kx miss clear_Nil)
next
  case (Cons c run)
  from Cons.prems obtain n' where n: "n = Suc n'" and n': "length run \<le> n'"
    by (cases n) auto
  have ax: "ahead x = c # (run @ rest)" using Cons.prems by simp
  have "greedy (one P) [] n' k (advance x) = Some z"
  proof (rule Cons.IH)
    show "ahead (advance x) = run @ rest" using ax by (simp add: ahead_advance)
    show "\<forall>c \<in> set run. P c" using Cons.prems by simp
    show "rest = [] \<or> \<not> P (hd rest)" by fact
    show "k (skip run (advance x)) = Some z" using Cons.prems ax by (simp add: skip_Cons)
    show "length run \<le> n'" by fact
  qed
  moreover have "one P (progress x (greedy (one P) [] n' k)) x =
      progress x (greedy (one P) [] n' k) (advance x)"
    using ax Cons.prems by (intro one_hit) auto
  moreover have "length (ahead (advance x)) < length (ahead x)"
    using ax by (simp add: ahead_advance)
  ultimately show ?case
    by (simp add: n clear_Nil progress_def)
qed

text \<open>A lazy run over a class stops at the first place where the continuation accepts.\<close>

lemma lazy_one_first:
  assumes "ahead x = t @ rest" and "\<forall>c \<in> set t. P c"
    and "\<forall>i < length t. k (skip (take i t) x) = None"
    and "k (skip t x) = Some z" and "length t \<le> n"
  shows "lazy (one P) [] n k x = Some z"
  using assms
proof (induction t arbitrary: x n)
  case Nil
  then have kx: "k x = Some z" by (simp add: skip_Nil)
  show ?case by (cases n) (simp_all add: kx)
next
  case (Cons c t)
  from Cons.prems obtain n' where n: "n = Suc n'" and n': "length t \<le> n'"
    by (cases n) auto
  have ax: "ahead x = c # (t @ rest)" using Cons.prems by simp
  from Cons.prems(3) have kx: "k x = None"
    by (auto simp: skip_Nil dest: spec[of _ 0])
  have "lazy (one P) [] n' k (advance x) = Some z"
  proof (rule Cons.IH)
    show "ahead (advance x) = t @ rest" using ax by (simp add: ahead_advance)
    show "\<forall>c \<in> set t. P c" using Cons.prems by simp
    show "\<forall>i < length t. k (skip (take i t) (advance x)) = None"
    proof (intro allI impI)
      fix i assume "i < length t"
      with Cons.prems(3) have "k (skip (take (Suc i) (c # t)) x) = None" by auto
      then show "k (skip (take i t) (advance x)) = None" using ax by (simp add: skip_Cons)
    qed
    show "k (skip t (advance x)) = Some z" using Cons.prems ax by (simp add: skip_Cons)
    show "length t \<le> n'" by fact
  qed
  moreover have "one P (progress x (lazy (one P) [] n' k)) x =
      progress x (lazy (one P) [] n' k) (advance x)"
    using ax Cons.prems by (intro one_hit) auto
  moreover have "length (ahead (advance x)) < length (ahead x)"
    using ax by (simp add: ahead_advance)
  ultimately show ?case
    by (simp add: n kx clear_Nil progress_def)
qed

lemma star_set_max:
  assumes "ahead x = run @ rest" and "\<forall>c \<in> set run. in_cset cs c"
    and "rest = [] \<or> \<not> in_cset cs (hd rest)" and "k (skip run x) = Some z"
  shows "m (Star (Set cs)) ic k x = Some z"
  using greedy_one_max[of x run rest "in_cset cs" k z "length (ahead x)"] assms
  by (simp add: greedy_star_def m_Set_one)

lemma plus_set_max:
  assumes "ahead x = run @ rest" and "run \<noteq> []" and "\<forall>c \<in> set run. in_cset cs c"
    and "rest = [] \<or> \<not> in_cset cs (hd rest)" and "k (skip run x) = Some z"
  shows "m (Plus (Set cs)) ic k x = Some z"
proof -
  from assms(2) obtain c run' where run: "run = c # run'" by (cases run) auto
  have ax: "ahead x = c # (run' @ rest)" using assms(1) run by simp
  have "greedy (one (in_cset cs)) [] (length (ahead (advance x))) k (advance x) = Some z"
  proof (rule greedy_one_max)
    show "ahead (advance x) = run' @ rest" using ax by (simp add: ahead_advance)
    show "\<forall>c \<in> set run'. in_cset cs c" using assms(3) run by simp
    show "rest = [] \<or> \<not> in_cset cs (hd rest)" by fact
    show "k (skip run' (advance x)) = Some z" using assms(5) run ax by (simp add: skip_Cons)
    show "length run' \<le> length (ahead (advance x))" using ax by (simp add: ahead_advance)
  qed
  moreover have "one (in_cset cs) (greedy_star (one (in_cset cs)) [] k) x =
      greedy_star (one (in_cset cs)) [] k (advance x)"
    using ax assms(3) run by (intro one_hit) auto
  ultimately show ?thesis
    by (simp add: m_Set_one clear_Nil greedy_star_def)
qed

lemma lazyplus_set_first:
  assumes "ahead x = t @ rest" and "t \<noteq> []" and "\<forall>c \<in> set t. in_cset cs c"
    and "\<forall>i. 0 < i \<and> i < length t \<longrightarrow> k (skip (take i t) x) = None"
    and "k (skip t x) = Some z"
  shows "m (LazyPlus (Set cs)) ic k x = Some z"
proof -
  from assms(2) obtain c t' where t: "t = c # t'" by (cases t) auto
  have ax: "ahead x = c # (t' @ rest)" using assms(1) t by simp
  have "lazy (one (in_cset cs)) [] (length (ahead (advance x))) k (advance x) = Some z"
  proof (rule lazy_one_first)
    show "ahead (advance x) = t' @ rest" using ax by (simp add: ahead_advance)
    show "\<forall>c \<in> set t'. in_cset cs c" using assms(3) t by simp
    show "\<forall>i < length t'. k (skip (take i t') (advance x)) = None"
    proof (intro allI impI)
      fix i assume "i < length t'"
      with assms(4) t have "k (skip (take (Suc i) (c # t')) x) = None" by auto
      then show "k (skip (take i t') (advance x)) = None" using ax by (simp add: skip_Cons)
    qed
    show "k (skip t' (advance x)) = Some z" using assms(5) t ax by (simp add: skip_Cons)
    show "length t' \<le> length (ahead (advance x))" using ax by (simp add: ahead_advance)
  qed
  moreover have "one (in_cset cs) (lazy_star (one (in_cset cs)) [] k) x =
      lazy_star (one (in_cset cs)) [] k (advance x)"
    using ax assms(3) t by (intro one_hit) auto
  ultimately show ?thesis
    by (simp add: m_Set_one clear_Nil lazy_star_def)
qed

text \<open>A literal, under the flag \<open>i\<close>.\<close>

lemma starts_with_ci_Nil: "starts_with_ci s []"
  by (simp add: starts_with_ci_def)

lemma starts_with_ci_Cons:
  "starts_with_ci s (p # w) \<longleftrightarrow>
   (case s of [] \<Rightarrow> False | c # cs \<Rightarrow> canonicalize c = canonicalize p \<and> starts_with_ci cs w)"
  by (cases s) (auto simp: starts_with_ci_def)

lemma m_lit:
  "m (lit w) True k x =
   (if starts_with_ci (ahead x) (js w) then k (skip (take (length w) (ahead x)) x) else None)"
proof (induction w arbitrary: x)
  case Nil
  show ?case by (simp add: lit_Nil js_Nil starts_with_ci_Nil skip_Nil)
next
  case (Cons p w)
  show ?case
  proof (cases "ahead x")
    case Nil
    then show ?thesis by (simp add: lit_Cons js_Cons starts_with_ci_Cons)
  next
    case (Cons c cs)
    then show ?thesis
      using Cons.IH[of "advance x"]
      by (simp add: lit_Cons js_Cons starts_with_ci_Cons chr_matches_def ahead_advance skip_Cons)
  qed
qed

lemma search_here:
  assumes "match_at R pre cs = Some y"
  shows "search R pre cs = Some (\<lparr>behind = pre, ahead = cs, captures = (\<lambda>_. None)\<rparr>, y)"
  using assms by (cases cs) simp_all

lemma search_None:
  "search R pre cs = None \<longleftrightarrow>
   (\<forall>i \<le> length cs. match_at R (rev (take i cs) @ pre) (drop i cs) = None)"
proof (induction cs arbitrary: pre)
  case Nil
  show ?case by (simp split: option.splits)
next
  case (Cons c cs)
  show ?case
  proof (cases "match_at R pre (c # cs)")
    case None
    have "(\<forall>i \<le> length (c # cs). match_at R (rev (take i (c # cs)) @ pre) (drop i (c # cs)) = None)
       \<longleftrightarrow> (\<forall>i \<le> length cs. match_at R (rev (take i cs) @ c # pre) (drop i cs) = None)"
      (is "?A \<longleftrightarrow> ?B")
    proof
      assume a: ?A
      show ?B
      proof (intro allI impI)
        fix i assume "i \<le> length cs"
        with a have "match_at R (rev (take (Suc i) (c # cs)) @ pre) (drop (Suc i) (c # cs)) = None"
          by (metis Suc_le_mono length_Cons)
        then show "match_at R (rev (take i cs) @ c # pre) (drop i cs) = None" by simp
      qed
    next
      assume b: ?B
      show ?A
      proof (intro allI impI)
        fix i assume i: "i \<le> length (c # cs)"
        show "match_at R (rev (take i (c # cs)) @ pre) (drop i (c # cs)) = None"
        proof (cases i)
          case 0
          then show ?thesis using None by simp
        next
          case (Suc j)
          with i b have "match_at R (rev (take j cs) @ c # pre) (drop j cs) = None" by simp
          then show ?thesis using Suc by simp
        qed
      qed
    qed
    with None Cons.IH[of "c # pre"] show ?thesis by simp
  next
    case (Some y)
    then have "\<exists>i \<le> length (c # cs). match_at R (rev (take i (c # cs)) @ pre) (drop i (c # cs)) \<noteq> None"
      by (intro exI[of _ 0]) simp
    with Some show ?thesis by auto
  qed
qed

lemma contains_ci_iff:
  "contains_ci s w \<longleftrightarrow> (\<exists>i \<le> length s. starts_with_ci (drop i s) w)"
proof (induction s)
  case Nil
  show ?case by (auto simp: starts_with_ci_def)
next
  case (Cons c cs)
  have "(\<exists>i \<le> length (c # cs). starts_with_ci (drop i (c # cs)) w) \<longleftrightarrow>
      starts_with_ci (c # cs) w \<or> (\<exists>i \<le> length cs. starts_with_ci (drop i cs) w)"
    (is "?A \<longleftrightarrow> ?B")
  proof
    assume ?A
    then obtain i where i: "i \<le> length (c # cs)" "starts_with_ci (drop i (c # cs)) w" by blast
    show ?B
    proof (cases i)
      case 0
      with i show ?thesis by simp
    next
      case (Suc j)
      with i show ?thesis by auto
    qed
  next
    assume ?B
    then show ?A
    proof
      assume "starts_with_ci (c # cs) w"
      then show ?A by (intro exI[of _ 0]) simp
    next
      assume "\<exists>i \<le> length cs. starts_with_ci (drop i cs) w"
      then obtain i where "i \<le> length cs" "starts_with_ci (drop i cs) w" by blast
      then show ?A by (intro exI[of _ "Suc i"]) simp
    qed
  qed
  with Cons.IH show ?case by simp
qed

subsection \<open>The approve rule\<close>

lemma match_at_alternatives3:
  "match_at (regex_i (Grp i (alts [lit u, lit v, lit w]))) pre cs \<noteq> None \<longleftrightarrow>
   starts_with_ci cs (js u) \<or> starts_with_ci cs (js v) \<or> starts_with_ci cs (js w)"
  by (simp add: match_at_def regex_i_def m_lit close_group_def)

lemma match_at_alternatives2:
  "match_at (regex_i (Grp i (alts [lit u, lit v]))) pre cs \<noteq> None \<longleftrightarrow>
   starts_with_ci cs (js u) \<or> starts_with_ci cs (js v)"
  by (simp add: match_at_def regex_i_def m_lit close_group_def)

lemma re_test_alternatives3:
  "re_test (regex_i (Grp i (alts [lit u, lit v, lit w]))) s \<longleftrightarrow>
   contains_ci s (js u) \<or> contains_ci s (js v) \<or> contains_ci s (js w)"
proof -
  have "re_test (regex_i (Grp i (alts [lit u, lit v, lit w]))) s \<longleftrightarrow>
     (\<exists>j \<le> length s. starts_with_ci (drop j s) (js u) \<or> starts_with_ci (drop j s) (js v) \<or>
        starts_with_ci (drop j s) (js w))"
    using match_at_alternatives3[of i u v w]
    by (simp add: re_test_def search_None del: alts.simps) 
  then show ?thesis
    by (auto simp: contains_ci_iff)
qed

lemma re_test_request_for_need:
  "re_test re_request_for_need s \<longleftrightarrow>
   contains_ci s (js ''request'') \<or> contains_ci s (js ''for'') \<or> contains_ci s (js ''need'')"
  unfolding re_request_for_need_def by (rule re_test_alternatives3)

lemma ci_equal_starts:
  assumes "map canonicalize a = map canonicalize (js w)"
  shows "starts_with_ci (a @ r) (js w)" and "take (length w) (a @ r) = a"
proof -
  from assms have "length (map canonicalize a) = length (map canonicalize (js w))" by simp
  then have len: "length a = length w" by (simp add: js_def)
  then show "take (length w) (a @ r) = a" by simp
  with len assms show "starts_with_ci (a @ r) (js w)"
    by (simp add: starts_with_ci_def js_def)
qed

lemma approve_spaces:
  assumes "map canonicalize a = map canonicalize (js ''approve'')"
    and "ws \<noteq> []" and "\<forall>c \<in> set ws. is_space c" and "r = [] \<or> \<not> is_space (hd r)"
    and "m (seqs rs) True k
           \<lparr>behind = rev ws @ rev a, ahead = r, captures = (\<lambda>_. None)\<rparr> = Some z"
  shows "m (seqs (Bol # lit ''approve'' # Plus (Set CSpace) # rs)) True k
           \<lparr>behind = [], ahead = a @ ws @ r, captures = (\<lambda>_. None)\<rparr> = Some z"
proof -
  let ?x0 = "\<lparr>behind = [], ahead = a @ ws @ r, captures = (\<lambda>_. None)\<rparr>"
  let ?x1 = "\<lparr>behind = rev a, ahead = ws @ r, captures = (\<lambda>_. None)\<rparr>"
  have x1: "skip (take (length ''approve'') (ahead ?x0)) ?x0 = ?x1"
    using ci_equal_starts(2)[OF assms(1), of "ws @ r"] by (simp add: skip_def)
  have "m (Plus (Set CSpace)) True (m (seqs rs) True k) ?x1 = Some z"
  proof (rule plus_set_max[where run = ws and rest = r])
    show "ahead ?x1 = ws @ r" by simp
    show "ws \<noteq> []" by fact
    show "\<forall>c \<in> set ws. in_cset CSpace c" using assms(3) by simp
    show "r = [] \<or> \<not> in_cset CSpace (hd r)" using assms(4) by simp
    show "m (seqs rs) True k (skip ws ?x1) = Some z" using assms(5) by (simp add: skip_def)
  qed
  moreover have "starts_with_ci (ahead ?x0) (js ''approve'')"
    using ci_equal_starts(1)[OF assms(1), of "ws @ r"] by simp
  ultimately have "m (lit ''approve'') True (m (seqs (Plus (Set CSpace) # rs)) True k) ?x0 = Some z"
    by (simp only: m_lit x1 if_True m_seqs_Cons)
  then show ?thesis
    by (simp only: m_seqs_Cons[of Bol] m_seqs_Cons[of "lit _"] m.simps(12) mstate.simps if_True
        simp_thms)
qed

lemma token_run:
  assumes "tok \<noteq> []" and "\<forall>c \<in> set tok. \<not> is_space c" and "rest = [] \<or> is_space (hd rest)"
    and "k \<lparr>behind = rev tok @ pre, ahead = rest, captures = cap\<rparr> = Some z"
  shows "m (Plus (Set CNotSpace)) True k \<lparr>behind = pre, ahead = tok @ rest, captures = cap\<rparr> = Some z"
proof (rule plus_set_max[where run = tok and rest = rest])
  show "ahead \<lparr>behind = pre, ahead = tok @ rest, captures = cap\<rparr> = tok @ rest" by simp
  show "tok \<noteq> []" by fact
  show "\<forall>c \<in> set tok. in_cset CNotSpace c" using assms(2) by simp
  show "rest = [] \<or> \<not> in_cset CNotSpace (hd rest)" using assms(3) by simp
  show "k (skip tok \<lparr>behind = pre, ahead = tok @ rest, captures = cap\<rparr>) = Some z"
    using assms(4) by (simp add: skip_def)
qed

lemma approve_token_test:
  assumes "map canonicalize a = map canonicalize (js ''approve'')"
    and "ws \<noteq> []" and "\<forall>c \<in> set ws. is_space c"
    and "tok \<noteq> []" and "\<forall>c \<in> set tok. \<not> is_space c" and "rest = [] \<or> is_space (hd rest)"
  shows "re_test re_approve_token (a @ ws @ tok @ rest)"
proof -
  have "m (seqs [Plus (Set CNotSpace)]) True Some
      \<lparr>behind = rev ws @ rev a, ahead = tok @ rest, captures = (\<lambda>_. None)\<rparr> =
      Some \<lparr>behind = rev tok @ rev ws @ rev a, ahead = rest, captures = (\<lambda>_. None)\<rparr>"
    unfolding m_seqs_Cons m_seqs_Nil
    by (rule token_run[OF assms(4-6)]) simp
  then have "match_at re_approve_token [] (a @ ws @ (tok @ rest)) =
      Some \<lparr>behind = rev tok @ rev ws @ rev a, ahead = rest, captures = (\<lambda>_. None)\<rparr>"
    unfolding match_at_def re_approve_token_def regex_i_def regexp.simps
    using assms by (intro approve_spaces) (auto simp: hd_append)
  from search_here[OF this] show ?thesis
    by (simp add: re_test_def)
qed

lemma approve_token_match:
  assumes "map canonicalize a = map canonicalize (js ''approve'')"
    and "ws \<noteq> []" and "\<forall>c \<in> set ws. is_space c"
    and "tok \<noteq> []" and "\<forall>c \<in> set tok. \<not> is_space c" and "rest = [] \<or> is_space (hd rest)"
  shows "\<exists>a'. re_match re_approve_id (a @ ws @ tok @ rest) = Some a' \<and> capture a' 1 = Some tok"
proof -
  let ?x2 = "\<lparr>behind = rev ws @ rev a, ahead = tok @ rest, captures = (\<lambda>_. None)\<rparr>"
  let ?z = "\<lparr>behind = rev tok @ rev ws @ rev a, ahead = rest,
             captures = (\<lambda>_. None)(1 \<mapsto> tok)\<rparr>"
  have "m (Plus (Set CNotSpace)) True (close_group 1 ?x2 (m (seqs []) True Some)) ?x2 = Some ?z"
    by (rule token_run[OF assms(4-6)]) (simp add: close_group_def m_seqs_Nil between_def)
  then have "m (seqs [Grp 1 (Plus (Set CNotSpace))]) True Some ?x2 = Some ?z"
    by (simp only: m_seqs_Cons m.simps(11))
  then have "match_at re_approve_id [] (a @ ws @ (tok @ rest)) = Some ?z"
    unfolding match_at_def re_approve_id_def regex_i_def regexp.simps
    using assms by (intro approve_spaces) (auto simp: hd_append)
  from search_here[OF this] show ?thesis
    by (simp add: re_match_def)
qed

lemma approve_token_general:
  assumes "trim input = a @ ws @ tok @ rest"
    and "map canonicalize a = map canonicalize (js ''approve'')"
    and "ws \<noteq> []" and "\<forall>c \<in> set ws. is_space c"
    and "tok \<noteq> []" and "\<forall>c \<in> set tok. \<not> is_space c" and "rest = [] \<or> is_space (hd rest)"
    and "\<not> contains_ci (trim input) (js ''request'')"
    and "\<not> contains_ci (trim input) (js ''for'')"
    and "\<not> contains_ci (trim input) (js ''need'')"
  shows "detectIntent input = Inr (Some (approvals_decide, Decide (Some tok) (js ''approved'')))"
proof -
  have t: "approve_test (trim input)"
    using approve_token_test[OF assms(2-7)] assms(1,8-10)
    by (simp add: approve_test_def re_test_request_for_need)
  from approve_token_match[OF assms(2-7)] obtain a'
    where "re_match re_approve_id (trim input) = Some a'" "capture a' 1 = Some tok"
    using assms(1) by auto
  then have "approve_extract (trim input) = Inr (Decide (Some tok) (js ''approved''))"
    by (simp add: approve_extract_def)
  with t have "first_match INTENT_RULES (trim input) =
      Some (Inr (approvals_decide, Decide (Some tok) (js ''approved'')))"
    by (simp add: INTENT_RULES_def)
  then show ?thesis
    by (intro detectIntent_matched[OF refl])
qed

subsection \<open>The amount of an approval request\<close>

lemma dollar_then_iff:
  "dollar_then P s \<longleftrightarrow> (\<exists>i. Suc i < length s \<and> s ! i = 36 \<and> P (s ! Suc i))"
proof (induction P s rule: dollar_then.induct)
  case (1 P a b cs)
  have "(\<exists>i. Suc i < length (a # b # cs) \<and> (a # b # cs) ! i = 36 \<and> P ((a # b # cs) ! Suc i))
     \<longleftrightarrow> (a = 36 \<and> P b) \<or> (\<exists>i. Suc i < length (b # cs) \<and> (b # cs) ! i = 36 \<and> P ((b # cs) ! Suc i))"
    (is "?A \<longleftrightarrow> ?B \<or> ?C")
  proof
    assume ?A
    then obtain i where i: "Suc i < length (a # b # cs)" "(a # b # cs) ! i = 36"
      "P ((a # b # cs) ! Suc i)" by blast
    show "?B \<or> ?C"
    proof (cases i)
      case 0
      with i show ?thesis by simp
    next
      case (Suc j)
      with i have "Suc j < length (b # cs) \<and> (b # cs) ! j = 36 \<and> P ((b # cs) ! Suc j)" by simp
      then show ?thesis by blast
    qed
  next
    assume "?B \<or> ?C"
    then show ?A
    proof
      assume ?B
      then show ?A by (intro exI[of _ 0]) simp
    next
      assume ?C
      then obtain j where "Suc j < length (b # cs) \<and> (b # cs) ! j = 36 \<and> P ((b # cs) ! Suc j)"
        by blast
      then show ?A by (intro exI[of _ "Suc j"]) simp
    qed
  qed
  with 1 show ?case by simp
qed simp_all

lemma greedy_total:
  assumes "\<And>y. k y \<noteq> None"
  shows "greedy f gs n k x \<noteq> None"
proof (cases n)
  case 0
  then show ?thesis using assms[of x] by simp
next
  case (Suc n')
  then show ?thesis using assms[of x] by (simp split: option.splits)
qed

lemma m_dollar:
  "m (lit ''$'') False k x =
   (case ahead x of [] \<Rightarrow> None | c # _ \<Rightarrow> if c = 36 then k (advance x) else None)"
  by (simp add: lit_def chr_matches_def split: list.splits)

lemma in_digit_comma: "in_cset (CUnion CDigit (CChar (of_char CHR '',''))) = digit_or_comma"
  by (intro ext) (simp add: digit_or_comma_def)

lemma dollar_run_total:
  assumes "\<And>y. K y \<noteq> None"
  shows "m (lit ''$'') False (one P (greedy_star (one P) [] K))
           \<lparr>behind = pre, ahead = cs, captures = cap\<rparr> \<noteq> None \<longleftrightarrow>
         (case cs of a # b # _ \<Rightarrow> a = 36 \<and> P b | _ \<Rightarrow> False)"
proof (cases cs)
  case Nil
  then show ?thesis by (simp add: m_dollar)
next
  case c1: (Cons a cs1)
  show ?thesis
  proof (cases cs1)
    case Nil
    with c1 show ?thesis by (simp add: m_dollar one_def advance_def)
  next
    case (Cons b cs2)
    have "greedy_star (one P) [] K y \<noteq> None" for y
      unfolding greedy_star_def by (rule greedy_total) (rule assms)
    with c1 Cons show ?thesis
      by (simp add: m_dollar one_def advance_def del: not_None_eq)
  qed
qed

lemma match_at_amount:
  "match_at re_amount pre cs \<noteq> None \<longleftrightarrow>
   (case cs of a # b # _ \<Rightarrow> a = 36 \<and> digit_or_comma b | _ \<Rightarrow> False)"
proof -
  let ?opt = "Opt (Grp 1 (seqs [lit ''.'', Rep 2 (Set CDigit)]))"
  let ?D = "CUnion CDigit (CChar (of_char CHR '',''))"
  have tot: "m (seqs [?opt]) False Some y \<noteq> None" for y
    unfolding m_seqs_Cons m_seqs_Nil m.simps(8) by (rule greedy_total) simp
  have "m (seqs [Plus (Set ?D), ?opt]) False Some =
      one digit_or_comma (greedy_star (one digit_or_comma) [] (m (seqs [?opt]) False Some))"
    by (intro ext) (simp only: m_seqs_Cons[of "Plus _"] m.simps(7) groups.simps clear_Nil m_Set_one
        in_digit_comma)
  then have "match_at re_amount pre cs =
     m (lit ''$'') False (one digit_or_comma (greedy_star (one digit_or_comma) []
         (m (seqs [?opt]) False Some)))
       \<lparr>behind = pre, ahead = cs, captures = (\<lambda>_. None)\<rparr>"
    by (simp only: match_at_def re_amount_def regex_def regexp.simps m_seqs_Cons[of "lit _"])
  then show ?thesis
    by (simp only: dollar_run_total[OF tot])
qed

lemma pair_at:
  "(case drop i s of a # b # _ \<Rightarrow> a = 36 \<and> P b | _ \<Rightarrow> False) \<longleftrightarrow>
   Suc i < length s \<and> s ! i = 36 \<and> P (s ! Suc i)"
proof (cases "Suc i < length s")
  case True
  then have "i < length s" by simp
  with True have "drop i s = s ! i # drop (Suc i) s"
    and "drop (Suc i) s = s ! Suc i # drop (Suc (Suc i)) s"
    by (simp_all add: Cons_nth_drop_Suc)
  then have "drop i s = s ! i # s ! Suc i # drop (Suc (Suc i)) s" by simp
  with True show ?thesis by (simp only: list.case) simp
next
  case False
  then have "length (drop i s) \<le> Suc 0" by simp
  then have "drop i s = [] \<or> (\<exists>a. drop i s = [a])"
    by (cases "drop i s") auto
  with False show ?thesis by (auto simp only: list.case)
qed

lemma search_amount: "search re_amount [] s \<noteq> None \<longleftrightarrow> dollar_then digit_or_comma s"
proof -
  have "search re_amount [] s \<noteq> None \<longleftrightarrow>
      (\<exists>i \<le> length s. match_at re_amount (rev (take i s) @ []) (drop i s) \<noteq> None)"
    unfolding search_None by simp
  also have "\<dots> \<longleftrightarrow> (\<exists>i \<le> length s. Suc i < length s \<and> s ! i = 36 \<and> digit_or_comma (s ! Suc i))"
    by (simp only: match_at_amount pair_at)
  also have "\<dots> \<longleftrightarrow> (\<exists>i. Suc i < length s \<and> s ! i = 36 \<and> digit_or_comma (s ! Suc i))"
    by (meson Suc_lessD less_imp_le)
  also have "\<dots> \<longleftrightarrow> dollar_then digit_or_comma s"
    by (simp only: dollar_then_iff)
  finally show ?thesis .
qed

lemma search_skip:
  assumes "\<forall>i < length pre. match_at R (rev (take i pre) @ b) (drop i pre @ cs) = None"
  shows "search R b (pre @ cs) = search R (rev pre @ b) cs"
  using assms
proof (induction pre arbitrary: b)
  case Nil
  show ?case by simp
next
  case (Cons p pre)
  from Cons.prems have 0: "match_at R b (p # pre @ cs) = None"
    by (auto dest: spec[of _ 0])
  have "\<forall>i < length pre. match_at R (rev (take i pre) @ p # b) (drop i pre @ cs) = None"
  proof (intro allI impI)
    fix i assume "i < length pre"
    with Cons.prems have "match_at R (rev (take (Suc i) (p # pre)) @ b) (drop (Suc i) (p # pre) @ cs) = None"
      by (metis Suc_less_eq length_Cons)
    then show "match_at R (rev (take i pre) @ p # b) (drop i pre @ cs) = None" by simp
  qed
  from Cons.IH[OF this] 0 show ?case by simp
qed

lemma search_ahead_le:
  "search R pre cs = Some (x, y) \<Longrightarrow> length (ahead x) \<le> length cs"
proof (induction cs arbitrary: pre)
  case Nil
  then show ?case by (auto split: option.splits)
next
  case (Cons c cs)
  show ?case
  proof (cases "match_at R pre (c # cs)")
    case None
    with Cons.prems have "search R (c # pre) cs = Some (x, y)" by simp
    from Cons.IH[OF this] show ?thesis by simp
  next
    case (Some z)
    with Cons.prems show ?thesis by auto
  qed
qed

lemma match_at_class:
  "match_at (regex_g (Set C)) pre cs =
   (case cs of [] \<Rightarrow> None
    | c # cs' \<Rightarrow> if in_cset C c
        then Some \<lparr>behind = c # pre, ahead = cs', captures = (\<lambda>_. None)\<rparr> else None)"
  by (simp add: match_at_def regex_g_def advance_def split: list.splits)

lemma replace_from_class:
  "length cs < n \<Longrightarrow>
   replace_from n (regex_g (Set C)) pre cs = filter (\<lambda>c. \<not> in_cset C c) cs"
proof (induction cs arbitrary: n pre)
  case Nil
  then obtain n' where "n = Suc n'" by (cases n) auto
  then show ?case by (simp add: match_at_class)
next
  case (Cons c cs)
  then obtain n' where n: "n = Suc n'" and n': "length cs < n'" by (cases n) auto
  let ?R = "regex_g (Set C)"
  show ?case
  proof (cases "in_cset C c")
    case True
    with Cons.IH[OF n', of "c # pre"] show ?thesis
      by (simp add: n match_at_class)
  next
    case False
    then have s: "search ?R pre (c # cs) = search ?R (c # pre) cs"
      by (simp add: match_at_class)
    have ih: "replace_from (Suc n') ?R (c # pre) cs = filter (\<lambda>c. \<not> in_cset C c) cs"
      using n' by (intro Cons.IH) simp
    show ?thesis
    proof (cases "search ?R (c # pre) cs")
      case None
      with ih s False show ?thesis by (simp add: n)
    next
      case (Some xy)
      obtain x y where xy: "xy = (x, y)" by (cases xy)
      from search_ahead_le[OF Some[unfolded xy]] have "length (ahead x) \<le> length cs" .
      then have "take (length (c # cs) - length (ahead x)) (c # cs) =
          c # take (length cs - length (ahead x)) cs"
        by (simp add: Suc_diff_le)
      with ih s False Some xy show ?thesis
        by (simp add: n del: replace_from.simps(2)) (simp add: n)
    qed
  qed
qed

lemma re_replace_dollar_comma:
  "re_replace re_dollar_comma s = filter (\<lambda>c. c \<noteq> 36 \<and> c \<noteq> 44) s"
  using replace_from_class[of s "Suc (length s)"
      "CUnion (CChar (of_char CHR ''$'')) (CChar (of_char CHR '',''))" "[]"]
  by (simp add: re_replace_def re_dollar_comma_def regex_g_def)

lemma digits_val_Nil: "digits_val [] = 0"
  by (simp add: digits_val_def)

lemma digit_not_space: "is_digit c \<Longrightarrow> \<not> is_space c"
  by (auto simp: is_digit_def is_space_def)

lemma parseFloat_unfold:
  assumes "split_sign (dropWhile is_space s) = (False, u)" and "take 8 u \<noteq> js ''Infinity''"
    and "takeWhile is_digit u = ip" and "dropWhile is_digit u = r" and "ip \<noteq> []"
    and "r = [] \<and> fp = [] \<or> r = 46 # fp \<and> (\<forall>c \<in> set fp. is_digit c)"
  shows "parseFloat s =
    number_value False (of_nat (digits_val ip) + of_nat (digits_val fp) / 10 ^ length fp)"
proof -
  have "(case r of [] \<Rightarrow> [] | c # cs \<Rightarrow> if c = 46 then takeWhile is_digit cs else []) = fp"
    and "(case r of [] \<Rightarrow> [] | c # cs \<Rightarrow> if c = 46 then dropWhile is_digit cs else r) = []"
    using assms(6) by auto
  then show ?thesis
    using assms(1-5) by (simp add: parseFloat_def Let_def exponent_def)
qed

lemma parseFloat_decimal:
  assumes "ds \<noteq> []" and "\<forall>c \<in> set ds. is_digit c"
    and "fr = [] \<or> (\<exists>b c. fr = [46, b, c] \<and> is_digit b \<and> is_digit c)"
  shows "parseFloat (ds @ fr) =
    number_value False
      (of_nat (digits_val ds) + (case fr of [] \<Rightarrow> 0 | _ # f \<Rightarrow> of_nat (digits_val f) / 100))"
proof -
  from assms(1) obtain d ds' where ds: "ds = d # ds'" by (cases ds) auto
  with assms(2) have d: "is_digit d" by simp
  then have d': "\<not> is_space d" "d \<noteq> 43" "d \<noteq> 45" "d \<noteq> 73"
    by (auto simp: is_digit_def is_space_def)
  have sg: "split_sign (dropWhile is_space (ds @ fr)) = (False, ds @ fr)"
    using d' ds by (simp add: split_sign_def)
  have inf: "take 8 (ds @ fr) \<noteq> js ''Infinity''"
    using d' ds by (simp add: js_def)
  have nd: "\<not> is_digit 46" by (simp add: is_digit_def)
  have tw: "takeWhile is_digit (ds @ fr) = ds" "dropWhile is_digit (ds @ fr) = fr"
    using assms(2,3) nd by (auto simp: takeWhile_append2 dropWhile_append2)
  from assms(3) show ?thesis
  proof
    assume fr: "fr = []"
    from parseFloat_unfold[OF sg inf tw assms(1), of "[]"] fr show ?thesis
      by (simp add: digits_val_Nil)
  next
    assume "\<exists>b c. fr = [46, b, c] \<and> is_digit b \<and> is_digit c"
    then obtain b c where fr: "fr = [46, b, c]" and bc: "is_digit b" "is_digit c" by blast
    from parseFloat_unfold[OF sg inf tw assms(1), of "[b, c]"] fr bc show ?thesis
      by simp
  qed
qed

lemma cents_cases:
  "cents rest = [] \<or> (\<exists>b c. cents rest = [46, b, c] \<and> is_digit b \<and> is_digit c)"
  by (auto simp: cents_def split: list.splits)

lemma cents_prefix: "take (length (cents rest)) rest = cents rest"
  by (auto simp: cents_def split: list.splits)

lemma cents_continuation:
  "\<exists>z. m (seqs [Opt (Grp 1 (seqs [lit ''.'', Rep 2 (Set CDigit)]))]) False Some
          \<lparr>behind = pre, ahead = rest, captures = cap\<rparr> = Some z \<and>
       ahead z = drop (length (cents rest)) rest"
proof -
  have "map_option ahead (m (seqs [Opt (Grp 1 (seqs [lit ''.'', Rep 2 (Set CDigit)]))]) False Some
          \<lparr>behind = pre, ahead = rest, captures = cap\<rparr>) =
        Some (drop (length (cents rest)) rest)"
    by (simp add: seqs_def lit_def exactly_2 chr_matches_def advance_def clear_def progress_def
        close_group_def between_def cents_def split: list.splits)
  then show ?thesis
    by auto
qed

lemma not_dollar_before:
  assumes "\<not> dollar_then digit_or_comma pre" and "i < length pre"
  shows "match_at re_amount p (drop i pre @ 36 # cs) = None"
proof -
  have nd: "\<not> digit_or_comma 36" by (simp add: digit_or_comma_def is_digit_def)
  from assms(2) obtain a r where d: "drop i pre = a # r"
    by (cases "drop i pre") auto
  show ?thesis
  proof (cases r)
    case Nil
    with d nd have "\<not> match_at re_amount p (drop i pre @ 36 # cs) \<noteq> None"
      by (simp only: match_at_amount) simp
    then show ?thesis by simp
  next
    case (Cons b r')
    with d have "(case drop i pre of a # b # _ \<Rightarrow> a = 36 \<and> digit_or_comma b | _ \<Rightarrow> False) =
        (a = 36 \<and> digit_or_comma b)" by simp
    with assms(1) have "\<not> (a = 36 \<and> digit_or_comma b)"
      by (simp only: pair_at dollar_then_iff) blast
    with d Cons have "\<not> match_at re_amount p (drop i pre @ 36 # cs) \<noteq> None"
      by (simp only: match_at_amount) simp
    then show ?thesis by simp
  qed
qed

lemma cents_length: "length (cents rest) \<le> length rest"
  by (auto simp: cents_def split: list.splits)

lemma amount_match:
  assumes "\<not> dollar_then digit_or_comma pre" and "run \<noteq> []"
    and "\<forall>c \<in> set run. digit_or_comma c" and "rest = [] \<or> \<not> digit_or_comma (hd rest)"
  shows "\<exists>a. re_match re_amount (pre @ 36 # run @ rest) = Some a \<and>
    matched a = 36 # run @ cents rest"
proof -
  let ?opt = "Opt (Grp 1 (seqs [lit ''.'', Rep 2 (Set CDigit)]))"
  let ?D = "CUnion CDigit (CChar (of_char CHR '',''))"
  let ?x0 = "\<lparr>behind = rev pre, ahead = 36 # run @ rest, captures = (\<lambda>_. None)\<rparr>"
  let ?x1 = "\<lparr>behind = 36 # rev pre, ahead = run @ rest, captures = (\<lambda>_. None)\<rparr>"
  obtain z where z: "m (seqs [?opt]) False Some
      \<lparr>behind = rev run @ 36 # rev pre, ahead = rest, captures = (\<lambda>_. None)\<rparr> = Some z"
    and az: "ahead z = drop (length (cents rest)) rest"
    using cents_continuation by blast
  have "m (Plus (Set ?D)) False (m (seqs [?opt]) False Some) ?x1 = Some z"
  proof (rule plus_set_max[where run = run and rest = rest])
    show "ahead ?x1 = run @ rest" by simp
    show "run \<noteq> []" by fact
    show "\<forall>c \<in> set run. in_cset ?D c" using assms(3) by (simp add: digit_or_comma_def)
    show "rest = [] \<or> \<not> in_cset ?D (hd rest)" using assms(4) by (simp add: digit_or_comma_def)
    show "m (seqs [?opt]) False Some (skip run ?x1) = Some z" using z by (simp add: skip_def)
  qed
  then have "m (lit ''$'') False (m (seqs [Plus (Set ?D), ?opt]) False Some) ?x0 = Some z"
    by (simp only: m_dollar mstate.simps list.case simp_thms if_True advance_def
        m_seqs_Cons[of "Plus _"])
  then have "match_at re_amount (rev pre) (36 # run @ rest) = Some z"
    by (simp only: match_at_def re_amount_def regex_def regexp.simps m_seqs_Cons[of "lit _"])
  from search_here[OF this]
  have "search re_amount (rev pre @ []) (36 # run @ rest) = Some (?x0, z)" by simp
  moreover have "search re_amount [] (pre @ 36 # run @ rest) =
      search re_amount (rev pre @ []) (36 # run @ rest)"
    using assms(1) by (intro search_skip) (simp add: not_dollar_before)
  moreover have "between ?x0 z = 36 # run @ cents rest"
    using cents_length[of rest] cents_prefix[of rest] by (simp add: between_def az)
  ultimately show ?thesis
    by (simp add: re_match_def)
qed

lemma amount_field:
  "\<exists>t. approvals_request_extract s = Inr (ApprovalRequest t s
     (case re_match re_amount s of
        Some a \<Rightarrow> Some (parseFloat (re_replace re_dollar_comma (matched a)))
      | None \<Rightarrow> None))"
  by (simp add: approvals_request_extract_def Let_def)

lemma amount_set_iff:
  "(\<exists>t v. approvals_request_extract s = Inr (ApprovalRequest t s (Some v))) \<longleftrightarrow>
   dollar_then digit_or_comma s"
proof -
  have "re_match re_amount s \<noteq> None \<longleftrightarrow> dollar_then digit_or_comma s"
    using search_amount[of s] by (cases "search re_amount [] s") (auto simp: re_match_def)
  with amount_field[of s] show ?thesis
    by (cases "re_match re_amount s") auto
qed

lemma amount_unset_iff:
  "(\<exists>t. approvals_request_extract s = Inr (ApprovalRequest t s None)) \<longleftrightarrow>
   \<not> dollar_then digit_or_comma s"
proof -
  have "re_match re_amount s \<noteq> None \<longleftrightarrow> dollar_then digit_or_comma s"
    using search_amount[of s] by (cases "search re_amount [] s") (auto simp: re_match_def)
  with amount_field[of s] show ?thesis
    by (cases "re_match re_amount s") auto
qed

lemma amount_value:
  assumes "\<not> dollar_then digit_or_comma pre" and "run \<noteq> []"
    and "\<forall>c \<in> set run. digit_or_comma c" and "rest = [] \<or> \<not> digit_or_comma (hd rest)"
    and "\<exists>c \<in> set run. is_digit c"
  shows "\<exists>t. approvals_request_extract (pre @ 36 # run @ rest) =
    Inr (ApprovalRequest t (pre @ 36 # run @ rest)
      (Some (number_value False (of_nat (digits_val (filter is_digit run)) + cents_val rest))))"
proof -
  from amount_match[OF assms(1-4)] obtain a
    where a: "re_match re_amount (pre @ 36 # run @ rest) = Some a"
      "matched a = 36 # run @ cents rest" by blast
  have "filter (\<lambda>c. c \<noteq> 36 \<and> c \<noteq> 44) run = filter is_digit run"
    using assms(3) by (intro filter_cong) (auto simp: digit_or_comma_def is_digit_def)
  moreover have "filter (\<lambda>c. c \<noteq> 36 \<and> c \<noteq> 44) (cents rest) = cents rest"
    using cents_cases[of rest] by (auto simp: is_digit_def)
  ultimately have "re_replace re_dollar_comma (matched a) = filter is_digit run @ cents rest"
    by (simp add: a re_replace_dollar_comma)
  moreover have "parseFloat (filter is_digit run @ cents rest) =
      number_value False (of_nat (digits_val (filter is_digit run)) + cents_val rest)"
    unfolding cents_val_def
    using assms(5) by (intro parseFloat_decimal cents_cases) (auto simp: filter_empty_conv)
  ultimately show ?thesis
    using amount_field[of "pre @ 36 # run @ rest"] a by simp
qed

section \<open>The claims about the dispatcher\<close>

lemma no_test_holds:
  "(\<forall>r \<in> set INTENT_RULES. \<not> test r s) \<longleftrightarrow>
   \<not> approve_test s \<and> \<not> deny_test s \<and> \<not> approvals_list_test s \<and>
   \<not> approvals_request_test s \<and> \<not> knowledge_create_test s \<and> \<not> knowledge_list_test s \<and>
   \<not> knowledge_search_test s \<and> \<not> requests_list_test s \<and> \<not> requests_create_test s \<and>
   \<not> status_test s"
  by (simp add: INTENT_RULES_def)

subsection \<open>approve abc123 and its neighbours\<close>

lemma trim_approve_abc123: "trim (js ''approve abc123'') = js ''approve abc123''"
  by (simp only: run_simps cong: run_congs)

lemma first_match_approve_abc123:
  "first_match INTENT_RULES (js ''approve abc123'') =
   Some (Inr (approvals_decide, Decide (Some (js ''abc123'')) (js ''approved'')))"
  by (simp only: run_simps cong: run_congs)

lemma trim_approve_travel:
  "trim (js ''approve a request for travel'') = js ''approve a request for travel''"
  by (simp only: run_simps cong: run_congs)

lemma first_match_approve_travel:
  "first_match INTENT_RULES (js ''approve a request for travel'') =
   Some (Inr (approvals_request, ApprovalRequest (js ''approve a request for travel'')
     (js ''approve a request for travel'') None))"
  by (simp only: run_simps cong: run_congs)

text \<open>
  Claim C3. The input \<open>approve abc123\<close> is a decision with the identifier \<open>abc123\<close> and the
  decision \<open>approved\<close>; the input \<open>approve a request for travel\<close> is an approval request.
  And every input that starts, once trimmed, with \<open>approve\<close> (in whatever case), white
  space and a token, and that contains none of \<open>request\<close>, \<open>for\<close> and \<open>need\<close> (in whatever
  case), is a decision with that token as its identifier.
\<close>

theorem approve_priority_ordering:
  "detectIntent (js ''approve abc123'') =
     Inr (Some (approvals_decide, Decide (Some (js ''abc123'')) (js ''approved''))) \<and>
   detectIntent (js ''approve a request for travel'') =
     Inr (Some (approvals_request, ApprovalRequest (js ''approve a request for travel'')
       (js ''approve a request for travel'') None)) \<and>
   (\<forall>input a ws tok rest.
      trim input = a @ ws @ tok @ rest \<and>
      map canonicalize a = map canonicalize (js ''approve'') \<and>
      ws \<noteq> [] \<and> (\<forall>c \<in> set ws. is_space c) \<and>
      tok \<noteq> [] \<and> (\<forall>c \<in> set tok. \<not> is_space c) \<and>
      (rest = [] \<or> is_space (hd rest)) \<and>
      \<not> contains_ci (trim input) (js ''request'') \<and>
      \<not> contains_ci (trim input) (js ''for'') \<and>
      \<not> contains_ci (trim input) (js ''need'') \<longrightarrow>
      detectIntent input =
        Inr (Some (approvals_decide, Decide (Some tok) (js ''approved''))))"
  using detectIntent_matched[OF trim_approve_abc123 first_match_approve_abc123]
    detectIntent_matched[OF trim_approve_travel first_match_approve_travel]
    approve_token_general
  by blast

lemmas spec_simps = strip_question_marks_def starts_with_ci_def contains_ci.simps
  list.map length_Cons

theorem approve_priority_ordering_witness:
  "trim (js ''  Approve  abc123 now'') = js ''Approve'' @ js ''  '' @ js ''abc123'' @ js '' now'' \<and>
   map canonicalize (js ''Approve'') = map canonicalize (js ''approve'') \<and>
   js ''  '' \<noteq> [] \<and> list_all is_space (js ''  '') \<and>
   js ''abc123'' \<noteq> [] \<and> list_all (\<lambda>c. \<not> is_space c) (js ''abc123'') \<and>
   is_space (hd (js '' now'')) \<and>
   \<not> contains_ci (trim (js ''  Approve  abc123 now'')) (js ''request'') \<and>
   \<not> contains_ci (trim (js ''  Approve  abc123 now'')) (js ''for'') \<and>
   \<not> contains_ci (trim (js ''  Approve  abc123 now'')) (js ''need'') \<and>
   detectIntent (js ''  Approve  abc123 now'') =
     Inr (Some (approvals_decide, Decide (Some (js ''abc123'')) (js ''approved'')))"
proof -
  have h: "trim (js ''  Approve  abc123 now'') =
      js ''Approve'' @ js ''  '' @ js ''abc123'' @ js '' now'' \<and>
    map canonicalize (js ''Approve'') = map canonicalize (js ''approve'') \<and>
    js ''  '' \<noteq> [] \<and> list_all is_space (js ''  '') \<and>
    js ''abc123'' \<noteq> [] \<and> list_all (\<lambda>c. \<not> is_space c) (js ''abc123'') \<and>
    is_space (hd (js '' now'')) \<and>
    \<not> contains_ci (trim (js ''  Approve  abc123 now'')) (js ''request'') \<and>
    \<not> contains_ci (trim (js ''  Approve  abc123 now'')) (js ''for'') \<and>
    \<not> contains_ci (trim (js ''  Approve  abc123 now'')) (js ''need'')"
    by (simp only: run_simps spec_simps list.pred_inject list.sel cong: run_congs)
  with approve_priority_ordering show ?thesis
    unfolding list_all_iff by blast
qed

subsection \<open>The fallback\<close>

lemma trim_the_cat: "trim (js ''the cat'') = js ''the cat''"
  by (simp only: run_simps cong: run_congs)

lemma first_match_the_cat: "first_match INTENT_RULES (js ''the cat'') = None"
  by (simp only: run_simps cong: run_congs)

lemma extract_the_cat: "knowledge_search_extract (js ''the cat'') = Inr (KnowledgeSearch (js ''cat''))"
  by (simp only: run_simps cong: run_congs)

lemma fallback_the_cat:
  "(if endsWith (js ''the cat'') (js ''?'') \<or> length (js ''the cat'') < 80
    then Inr (Some (knowledge_search,
      KnowledgeSearch (trim (re_replace re_question_marks (js ''the cat'')))))
    else Inr None) = Inr (Some (knowledge_search, KnowledgeSearch (js ''the cat'')))"
  by (simp only: run_simps cong: run_congs)

text \<open>
  Claim C2, as stated, fails: no test holds on \<open>the cat\<close>, which is shorter than 80, and
  the query of the fallback is \<open>the cat\<close>, while the extractor of the knowledge search
  strips the article and returns \<open>cat\<close>. The fallback only strips the question marks.
\<close>

theorem the_cat_keeps_article:
  "\<not> approve_test (trim (js ''the cat'')) \<and> \<not> deny_test (trim (js ''the cat'')) \<and>
   \<not> approvals_list_test (trim (js ''the cat'')) \<and>
   \<not> approvals_request_test (trim (js ''the cat'')) \<and>
   \<not> knowledge_create_test (trim (js ''the cat'')) \<and>
   \<not> knowledge_list_test (trim (js ''the cat'')) \<and>
   \<not> knowledge_search_test (trim (js ''the cat'')) \<and>
   \<not> requests_list_test (trim (js ''the cat'')) \<and>
   \<not> requests_create_test (trim (js ''the cat'')) \<and>
   \<not> status_test (trim (js ''the cat'')) \<and>
   length (trim (js ''the cat'')) < 80 \<and>
   detectIntent (js ''the cat'') =
     Inr (Some (knowledge_search, KnowledgeSearch (js ''the cat''))) \<and>
   knowledge_search_extract (js ''the cat'') = Inr (KnowledgeSearch (js ''cat'')) \<and>
   js ''the cat'' \<noteq> js ''cat''"
proof -
  have "length (js ''the cat'') < 80" and "js ''the cat'' \<noteq> js ''cat''"
    by (simp_all only: run_simps cong: run_congs)
  moreover have "detectIntent (js ''the cat'') =
      Inr (Some (knowledge_search, KnowledgeSearch (js ''the cat'')))"
    using detectIntent_unmatched[OF trim_the_cat first_match_the_cat]
    by (simp only: fallback_the_cat)
  ultimately show ?thesis
    using first_match_the_cat[unfolded first_match_None no_test_holds] extract_the_cat
    by (simp add: trim_the_cat)
qed

text \<open>
  Claim C2, amended. For every input on which no test holds and which, once trimmed, either
  ends with a question mark or is shorter than 80, the classification is a knowledge search
  whose query is the trimmed input without its trailing question marks, trimmed again.
\<close>

theorem fallback_query:
  assumes "\<forall>r \<in> set INTENT_RULES. \<not> test r (trim input)"
    and "endsWith (trim input) (js ''?'') \<or> length (trim input) < 80"
  shows "detectIntent input =
    Inr (Some (knowledge_search, KnowledgeSearch (trim (strip_question_marks (trim input)))))"
proof -
  from assms(1) have "first_match INTENT_RULES (trim input) = None"
    by (simp add: first_match_None)
  from detectIntent_unmatched[OF refl this] assms(2) show ?thesis
    by (simp add: re_replace_question_marks)
qed

lemma trim_sky: "trim (js ''why is the sky blue?'') = js ''why is the sky blue?''"
  by (simp only: run_simps cong: run_congs)

lemma first_match_sky: "first_match INTENT_RULES (js ''why is the sky blue?'') = None"
  by (simp only: run_simps cong: run_congs)

theorem fallback_query_witness:
  "\<not> approve_test (trim (js ''why is the sky blue?'')) \<and>
   \<not> deny_test (trim (js ''why is the sky blue?'')) \<and>
   \<not> approvals_list_test (trim (js ''why is the sky blue?'')) \<and>
   \<not> approvals_request_test (trim (js ''why is the sky blue?'')) \<and>
   \<not> knowledge_create_test (trim (js ''why is the sky blue?'')) \<and>
   \<not> knowledge_list_test (trim (js ''why is the sky blue?'')) \<and>
   \<not> knowledge_search_test (trim (js ''why is the sky blue?'')) \<and>
   \<not> requests_list_test (trim (js ''why is the sky blue?'')) \<and>
   \<not> requests_create_test (trim (js ''why is the sky blue?'')) \<and>
   \<not> status_test (trim (js ''why is the sky blue?'')) \<and>
   endsWith (trim (js ''why is the sky blue?'')) (js ''?'') \<and>
   detectIntent (js ''why is the sky blue?'') =
     Inr (Some (knowledge_search, KnowledgeSearch (js ''why is the sky blue'')))"
proof -
  have a: "\<forall>r \<in> set INTENT_RULES. \<not> test r (trim (js ''why is the sky blue?''))"
    using first_match_sky by (simp only: trim_sky first_match_None)
  have b: "endsWith (trim (js ''why is the sky blue?'')) (js ''?'')"
    by (simp only: run_simps cong: run_congs)
  have c: "trim (strip_question_marks (trim (js ''why is the sky blue?''))) =
      js ''why is the sky blue''"
    by (simp only: run_simps spec_simps cong: run_congs)
  from fallback_query[OF a] a[unfolded no_test_holds] b c show ?thesis
    by simp
qed

subsection \<open>No intent\<close>

lemma trim_long:
  "trim (js ''The quarterly numbers were better than expected and the team went out to celebrate'') =
   js ''The quarterly numbers were better than expected and the team went out to celebrate''"
  by (simp only: run_simps cong: run_congs)

lemma first_match_long:
  "first_match INTENT_RULES
     (js ''The quarterly numbers were better than expected and the team went out to celebrate'') = None"
  by (simp only: run_simps cong: run_congs)

text \<open>
  Claim C4. The classification is \<open>null\<close> exactly when no test holds on the trimmed input,
  the trimmed input does not end with a question mark, and its length is 80 or more; in
  every other case an intent with its data is returned.
\<close>

theorem unresolved_iff:
  "(detectIntent input = Inr None \<longleftrightarrow>
      (\<forall>r \<in> set INTENT_RULES. \<not> test r (trim input)) \<and>
      \<not> endsWith (trim input) (js ''?'') \<and> 80 \<le> length (trim input)) \<and>
   (detectIntent input = Inr None \<or> (\<exists>i d. detectIntent input = Inr (Some (i, d))))"
proof (cases "first_match INTENT_RULES (trim input)")
  case None
  from detectIntent_unmatched[OF refl None] None show ?thesis
    by (auto simp: first_match_None not_less)
next
  case (Some a)
  have "a \<noteq> Inl e" for e
    using first_match_total[OF INTENT_RULES_total, of "trim input" e] Some by auto
  then obtain r where "a = Inr r"
    by (cases a) auto
  with Some have r: "first_match INTENT_RULES (trim input) = Some (Inr r)"
    by simp
  then have "\<not> (\<forall>r \<in> set INTENT_RULES. \<not> test r (trim input))"
    by (simp add: first_match_None[symmetric])
  with detectIntent_matched[OF refl r] show ?thesis
    by (cases r) auto
qed

theorem unresolved_iff_witness:
  "\<not> approve_test (trim (js ''The quarterly numbers were better than expected and the team went out to celebrate'')) \<and>
   \<not> deny_test (trim (js ''The quarterly numbers were better than expected and the team went out to celebrate'')) \<and>
   \<not> approvals_list_test (trim (js ''The quarterly numbers were better than expected and the team went out to celebrate'')) \<and>
   \<not> approvals_request_test (trim (js ''The quarterly numbers were better than expected and the team went out to celebrate'')) \<and>
   \<not> knowledge_create_test (trim (js ''The quarterly numbers were better than expected and the team went out to celebrate'')) \<and>
   \<not> knowledge_list_test (trim (js ''The quarterly numbers were better than expected and the team went out to celebrate'')) \<and>
   \<not> knowledge_search_test (trim (js ''The quarterly numbers were better than expected and the team went out to celebrate'')) \<and>
   \<not> requests_list_test (trim (js ''The quarterly numbers were better than expected and the team went out to celebrate'')) \<and>
   \<not> requests_create_test (trim (js ''The quarterly numbers were better than expected and the team went out to celebrate'')) \<and>
   \<not> status_test (trim (js ''The quarterly numbers were better than expected and the team went out to celebrate'')) \<and>
   \<not> endsWith (trim (js ''The quarterly numbers were better than expected and the team went out to celebrate'')) (js ''?'') \<and>
   80 \<le> length (trim (js ''The quarterly numbers were better than expected and the team went out to celebrate'')) \<and>
   detectIntent (js ''The quarterly numbers were better than expected and the team went out to celebrate'') = Inr None"
proof -
  have a: "\<forall>r \<in> set INTENT_RULES. \<not> test r (trim (js ''The quarterly numbers were better than expected and the team went out to celebrate''))"
    using first_match_long by (simp only: trim_long first_match_None)
  have b: "\<not> endsWith (trim (js ''The quarterly numbers were better than expected and the team went out to celebrate'')) (js ''?'') \<and>
      80 \<le> length (trim (js ''The quarterly numbers were better than expected and the team went out to celebrate''))"
    by (simp only: run_simps cong: run_congs)
  from unresolved_iff[of "js ''The quarterly numbers were better than expected and the team went out to celebrate''"] a a[unfolded no_test_holds] b show ?thesis
    by simp
qed

section \<open>The claim about amounts\<close>

lemmas amount_spec_simps = dollar_then.simps digit_or_comma_def list.pred_inject
  list_ex_Nil_iff list_ex_Cons_iff

lemma extract_dollar_comma_5:
  "approvals_request_extract (js ''$,5'') =
   Inr (ApprovalRequest (js ''$,5'') (js ''$,5'') (Some (Finite 5)))"
  apply (simp only: run_simps cong: run_congs)
  apply (simp add: number_defs)
  done

text \<open>
  Claim C7, as stated, fails: in \<open>$,5\<close> no digit follows the dollar sign, and the amount is
  set, to 5. The class after the dollar sign has the comma in it as well as the digits.
\<close>

theorem amount_without_dollar_digit:
  "approvals_request_extract (js ''$,5'') =
     Inr (ApprovalRequest (js ''$,5'') (js ''$,5'') (Some (Finite 5))) \<and>
   \<not> dollar_then is_digit (js ''$,5'')"
proof -
  have "\<not> dollar_then is_digit (js ''$,5'')"
    by (simp only: run_simps amount_spec_simps cong: run_congs)
  with extract_dollar_comma_5 show ?thesis
    by simp
qed

lemma extract_rounded:
  "approvals_request_extract (js ''$9007199254740993'') =
   Inr (ApprovalRequest (js ''$9007199254740993'') (js ''$9007199254740993'')
     (Some (Finite 9007199254740992)))"
  apply (simp only: run_simps cong: run_congs)
  apply (simp add: number_defs)
  done

lemma cents_val_nonneg: "0 \<le> cents_val rest"
  by (simp add: cents_val_def split: list.splits)

lemma amount_exact:
  assumes "\<exists>t. approvals_request_extract s = Inr (ApprovalRequest t s
      (Some (number_value False (of_nat D + cents_val rest))))"
    and "cents rest = []" and "D < 2 ^ 53"
  shows "\<exists>t. approvals_request_extract s = Inr (ApprovalRequest t s (Some (Finite (of_nat D))))"
proof -
  from assms(2) have "cents_val rest = 0" by (simp add: cents_val_def)
  with assms(1) number_value_exact[OF assms(3)] show ?thesis by simp
qed

lemma amount_overflow:
  assumes "\<exists>t. approvals_request_extract s = Inr (ApprovalRequest t s
      (Some (number_value False (of_nat D + cents_val rest))))"
    and "2 ^ 1024 \<le> D"
  shows "\<exists>t. approvals_request_extract s = Inr (ApprovalRequest t s (Some (Infinity False)))"
proof -
  from assms(2) have "(of_nat (2 ^ 1024) :: rat) \<le> of_nat D" by (simp only: of_nat_le_iff)
  also have "\<dots> \<le> of_nat D + cents_val rest" using cents_val_nonneg[of rest] by simp
  finally have "(2 ^ 1024 :: rat) \<le> of_nat D + cents_val rest" by simp
  from number_value_overflow[OF this, of False] assms(1) show ?thesis by simp
qed

text \<open>
  Claim C7, amended. In the extractor of approval requests the amount is set if and only if
  the input has a dollar sign with a digit or a comma right after it, and is unset
  otherwise. Where the first such dollar sign is followed by a run of digits and commas
  with a digit in it, the amount is the double nearest to the number that the digits of
  the run spell, plus the hundredths that a point and two digits right after the run
  spell. Without such hundredths the amount is the number that the digits spell itself,
  when that is below \<open>2 ^ 53\<close>, and it is infinite when that number is \<open>2 ^ 1024\<close> or more.
  The digits \<open>9007199254740993\<close>, which spell \<open>2 ^ 53 + 1\<close>, give the amount \<open>2 ^ 53\<close>.
\<close>

theorem amount_parsing:
  "((\<exists>t v. approvals_request_extract s = Inr (ApprovalRequest t s (Some v))) \<longleftrightarrow>
      dollar_then digit_or_comma s) \<and>
   ((\<exists>t. approvals_request_extract s = Inr (ApprovalRequest t s None)) \<longleftrightarrow>
      \<not> dollar_then digit_or_comma s) \<and>
   (\<forall>pre run rest.
      s = pre @ 36 # run @ rest \<and> \<not> dollar_then digit_or_comma pre \<and> run \<noteq> [] \<and>
      (\<forall>c \<in> set run. digit_or_comma c) \<and> (rest = [] \<or> \<not> digit_or_comma (hd rest)) \<and>
      (\<exists>c \<in> set run. is_digit c) \<longrightarrow>
      (\<exists>t. approvals_request_extract s = Inr (ApprovalRequest t s
         (Some (number_value False
            (of_nat (digits_val (filter is_digit run)) + cents_val rest))))) \<and>
      (cents rest = [] \<and> digits_val (filter is_digit run) < 2 ^ 53 \<longrightarrow>
         (\<exists>t. approvals_request_extract s = Inr (ApprovalRequest t s
            (Some (Finite (of_nat (digits_val (filter is_digit run)))))))) \<and>
      (2 ^ 1024 \<le> digits_val (filter is_digit run) \<longrightarrow>
         (\<exists>t. approvals_request_extract s = Inr (ApprovalRequest t s
            (Some (Infinity False)))))) \<and>
   approvals_request_extract (js ''$9007199254740993'') =
     Inr (ApprovalRequest (js ''$9007199254740993'') (js ''$9007199254740993'')
       (Some (Finite 9007199254740992)))"
proof -
  have "(\<exists>t. approvals_request_extract s = Inr (ApprovalRequest t s
         (Some (number_value False
            (of_nat (digits_val (filter is_digit run)) + cents_val rest))))) \<and>
      (cents rest = [] \<and> digits_val (filter is_digit run) < 2 ^ 53 \<longrightarrow>
         (\<exists>t. approvals_request_extract s = Inr (ApprovalRequest t s
            (Some (Finite (of_nat (digits_val (filter is_digit run)))))))) \<and>
      (2 ^ 1024 \<le> digits_val (filter is_digit run) \<longrightarrow>
         (\<exists>t. approvals_request_extract s = Inr (ApprovalRequest t s
            (Some (Infinity False)))))"
    if h: "s = pre @ 36 # run @ rest \<and> \<not> dollar_then digit_or_comma pre \<and> run \<noteq> [] \<and>
      (\<forall>c \<in> set run. digit_or_comma c) \<and> (rest = [] \<or> \<not> digit_or_comma (hd rest)) \<and>
      (\<exists>c \<in> set run. is_digit c)" for pre run rest
  proof -
    from h amount_value[of pre run rest]
    have v: "\<exists>t. approvals_request_extract s = Inr (ApprovalRequest t s
         (Some (number_value False
            (of_nat (digits_val (filter is_digit run)) + cents_val rest))))"
      by blast
    from v amount_exact[OF v] amount_overflow[OF v] show ?thesis
      by blast
  qed
  with amount_set_iff[of s] amount_unset_iff[of s] extract_rounded show ?thesis
    by blast
qed

lemma number_value_2469_2: "number_value False (2469 / 2) = Finite (2469 / 2)"
  by (simp add: number_defs)

theorem amount_parsing_witness:
  "js ''pay $1,234.50 now'' = js ''pay '' @ 36 # js ''1,234'' @ js ''.50 now'' \<and>
   \<not> dollar_then digit_or_comma (js ''pay '') \<and> js ''1,234'' \<noteq> [] \<and>
   list_all digit_or_comma (js ''1,234'') \<and> \<not> digit_or_comma (hd (js ''.50 now'')) \<and>
   list_ex is_digit (js ''1,234'') \<and>
   (\<exists>t. approvals_request_extract (js ''pay $1,234.50 now'') =
      Inr (ApprovalRequest t (js ''pay $1,234.50 now'') (Some (Finite (2469 / 2))))) \<and>
   js ''pay $5,000'' = js ''pay '' @ 36 # js ''5,000'' @ [] \<and> js ''5,000'' \<noteq> [] \<and>
   list_all digit_or_comma (js ''5,000'') \<and> list_ex is_digit (js ''5,000'') \<and>
   cents [] = [] \<and> digits_val (filter is_digit (js ''5,000'')) < 2 ^ 53 \<and>
   (\<exists>t. approvals_request_extract (js ''pay $5,000'') =
      Inr (ApprovalRequest t (js ''pay $5,000'') (Some (Finite 5000))))"
proof -
  have h: "js ''pay $1,234.50 now'' = js ''pay '' @ 36 # js ''1,234'' @ js ''.50 now'' \<and>
    \<not> dollar_then digit_or_comma (js ''pay '') \<and> js ''1,234'' \<noteq> [] \<and>
    list_all digit_or_comma (js ''1,234'') \<and> \<not> digit_or_comma (hd (js ''.50 now'')) \<and>
    list_ex is_digit (js ''1,234'')"
    by (simp only: run_simps amount_spec_simps list.sel cong: run_congs)
  have v: "of_nat (digits_val (filter is_digit (js ''1,234''))) + cents_val (js ''.50 now'') =
      (2469 / 2 :: rat)"
    by (simp add: js_def is_digit_def digits_val_def cents_val_def cents_def)
  from h amount_parsing[of "js ''pay $1,234.50 now''"]
  have "\<exists>t. approvals_request_extract (js ''pay $1,234.50 now'') =
      Inr (ApprovalRequest t (js ''pay $1,234.50 now'')
        (Some (number_value False (of_nat (digits_val (filter is_digit (js ''1,234''))) +
           cents_val (js ''.50 now'')))))"
    unfolding list_all_iff list_ex_iff by blast
  from this[unfolded v number_value_2469_2]
  have a: "\<exists>t. approvals_request_extract (js ''pay $1,234.50 now'') =
      Inr (ApprovalRequest t (js ''pay $1,234.50 now'') (Some (Finite (2469 / 2))))" .
  have g: "js ''pay $5,000'' = js ''pay '' @ 36 # js ''5,000'' @ [] \<and> js ''5,000'' \<noteq> [] \<and>
    list_all digit_or_comma (js ''5,000'') \<and> list_ex is_digit (js ''5,000'')"
    by (simp only: run_simps amount_spec_simps list.sel cong: run_congs)
  have c: "cents [] = []"
    by (simp add: cents_def)
  have d: "digits_val (filter is_digit (js ''5,000'')) = 5000"
    by (simp add: js_def is_digit_def digits_val_def)
  from g c d h amount_parsing[of "js ''pay $5,000''"]
  have "\<exists>t. approvals_request_extract (js ''pay $5,000'') =
      Inr (ApprovalRequest t (js ''pay $5,000'')
        (Some (Finite (of_nat (digits_val (filter is_digit (js ''5,000'')))))))"
    unfolding list_all_iff list_ex_iff by (elim conjE allE[of _ "js ''pay ''"]
      allE[of _ "js ''5,000''"] allE[of _ "[]"]) simp
  then have b: "\<exists>t. approvals_request_extract (js ''pay $5,000'') =
      Inr (ApprovalRequest t (js ''pay $5,000'') (Some (Finite 5000)))"
    unfolding d by simp
  from h a g c d b show ?thesis
    by simp
qed

section \<open>The claim about failures and defaults\<close>









section \<open>The router keeps no state\<close>

lemma returns_bind:
  assumes "returns c v" and "returns (f v) w"
  shows "returns (State_Monad.bind c f) w"
  using assms by (auto simp: returns_def split: prod.splits) (metis fst_conv)

lemma returns_return: "v = w \<Longrightarrow> returns (State_Monad.return v) w"
  by (simp add: returns_def)

lemma exec_fresh:
  "run_state (RegExpBuiltinExec (length h) s) (h @ [\<lparr>source = R, sticky = False, lastIndex = 0\<rparr>]) =
   (search R [] s, h @ [\<lparr>source = R, sticky = False,
      lastIndex = (case search R [] s of None \<Rightarrow> 0
                   | Some (x, y) \<Rightarrow> if global R then length (behind y) else 0)\<rparr>])"
  by (auto simp: RegExpBuiltinExec_def object_def set_lastIndex_def match_from_def Let_def
      split: option.splits)

lemma returns_test_literal: "returns (test_literal R s) (re_test R s)"
  by (simp add: returns_def test_literal_def RegExpCreate_def RegExp_test_def exec_fresh
      re_test_def split: prod.splits)

lemma returns_match_literal: "returns (match_literal s R) (re_match R s)"
  by (simp add: returns_def match_literal_def RegExpCreate_def String_match_def exec_fresh
      re_match_def split: prod.splits)

lemma run_object: "run_state (object a) h = (h ! a, h)"
  by (simp add: object_def)

lemma run_set_lastIndex:
  "run_state (set_lastIndex a i) h = ((), h[a := (h ! a)\<lparr>lastIndex := i\<rparr>])"
  by (simp add: set_lastIndex_def)

lemma run_RegExpCreate:
  "run_state (RegExpCreate R y) h = (length h, h @ [\<lparr>source = R, sticky = y, lastIndex = 0\<rparr>])"
  by (simp add: RegExpCreate_def)

lemma run_exec:
  "run_state (RegExpBuiltinExec a s) h =
   (let obj = h ! a;
        keeps = (global (source obj) \<or> sticky obj);
        i = (if keeps then lastIndex obj else 0);
        r = (if length s < i then None else match_from (source obj) (sticky obj) s i)
    in (r, if keeps
           then h[a := obj\<lparr>lastIndex := (case r of None \<Rightarrow> 0 | Some (x, z) \<Rightarrow> length (behind z))\<rparr>]
           else h))"
  by (auto simp: RegExpBuiltinExec_def run_object run_set_lastIndex Let_def split: option.splits)

lemma exec_global:
  assumes "a < length h" and "source (h ! a) = R" and "global R" and "\<not> sticky (h ! a)"
    and "lastIndex (h ! a) = length d"
  shows "run_state (RegExpBuiltinExec a (d @ cs)) h =
    (search R (rev d) cs,
     h[a := (h ! a)\<lparr>lastIndex :=
        (case search R (rev d) cs of None \<Rightarrow> 0 | Some (x, z) \<Rightarrow> length (behind z))\<rparr>])"
  using assms by (simp add: run_exec match_from_def Let_def)

lemma exec_sticky:
  assumes "b < length h" and "source (h ! b) = R" and "sticky (h ! b)"
    and "lastIndex (h ! b) = length d"
  shows "run_state (RegExpBuiltinExec b (d @ cs)) h =
    (case match_at R (rev d) cs of
       None \<Rightarrow> (None, h[b := (h ! b)\<lparr>lastIndex := 0\<rparr>])
     | Some z \<Rightarrow> (Some (\<lparr>behind = rev d, ahead = cs, captures = (\<lambda>_. None)\<rparr>, z),
         h[b := (h ! b)\<lparr>lastIndex := length (behind z)\<rparr>]))"
  using assms by (simp add: run_exec match_from_def Let_def split: option.splits)

lemma replace_loop_stop:
  assumes "run_state (RegExpBuiltinExec a s) h = (None, h1)"
  shows "fst (run_state (replace_loop (Suc n) a s p) h) = drop p s"
  using assms by simp

lemma replace_loop_step:
  assumes "run_state (RegExpBuiltinExec a s) h = (Some (x, y), h1)"
    and "run_state (if between x y = []
          then do { obj \<leftarrow> object a; set_lastIndex a (Suc (lastIndex obj)) }
          else State_Monad.return ()) h1 = ((), h2)"
  shows "fst (run_state (replace_loop (Suc n) a s p) h) =
    take (length (behind x) - p) (drop p s) @
    fst (run_state (replace_loop n a s (length (behind y))) h2)"
  using assms by (simp split: prod.splits)

lemma replace_loop_global:
  assumes "global R"
  shows "\<lbrakk>a < length h; source (h ! a) = R; \<not> sticky (h ! a);
      lastIndex (h ! a) = length (d0 @ d1); length cs < n; n < ns\<rbrakk> \<Longrightarrow>
     fst (run_state (replace_loop ns a (d0 @ d1 @ cs) (length d0)) h) =
     d1 @ replace_from n R (rev (d0 @ d1)) cs"
proof (induction n arbitrary: ns h d0 d1 cs)
  case 0
  then show ?case by simp
next
  case (Suc n)
  from Suc.prems(6) obtain ns' where ns: "ns = Suc ns'" and ns': "n < ns'"
    by (cases ns) auto
  let ?s = "d0 @ d1 @ cs"
  have ex: "run_state (RegExpBuiltinExec a ?s) h =
    (search R (rev (d0 @ d1)) cs,
     h[a := (h ! a)\<lparr>lastIndex :=
        (case search R (rev (d0 @ d1)) cs of None \<Rightarrow> 0 | Some (x, z) \<Rightarrow> length (behind z))\<rparr>])"
    using exec_global[OF Suc.prems(1,2) assms Suc.prems(3,4), of cs] by simp
  show ?case
  proof (cases "search R (rev (d0 @ d1)) cs")
    case None
    with ex have "run_state (RegExpBuiltinExec a ?s) h =
        (None, h[a := (h ! a)\<lparr>lastIndex := 0\<rparr>])" by simp
    from replace_loop_stop[OF this, of ns' "length d0"] None show ?thesis
      by (simp add: ns)
  next
    case (Some xy)
    obtain x y where xy: "xy = (x, y)" by (cases xy)
    from search_later[OF Some[unfolded xy]] obtain u v where
      cs: "cs = u @ v @ ahead y" and bh: "behind y = rev v @ rev u @ rev (d0 @ d1)"
      and x: "x = \<lparr>behind = rev u @ rev (d0 @ d1), ahead = v @ ahead y, captures = (\<lambda>_. None)\<rparr>"
      by blast
    define w where "w = ahead y"
    define h1 where "h1 = h[a := (h ! a)\<lparr>lastIndex := length (behind y)\<rparr>]"
    have h1: "a < length h1" "source (h1 ! a) = R" "\<not> sticky (h1 ! a)"
      "lastIndex (h1 ! a) = length (behind y)"
      using Suc.prems(1-3) by (simp_all add: h1_def)
    have bt: "between x y = v" by (simp add: between_def x)
    have run1: "run_state (RegExpBuiltinExec a ?s) h = (Some (x, y), h1)"
      using ex Some xy by (simp add: h1_def)
    have pre: "take (length (behind x) - length d0) (drop (length d0) ?s) = d1 @ u"
      by (simp add: x cs)
    show ?thesis
    proof (cases "v = []")
      case False
      then obtain c v' where "v = c # v'" by (cases v) auto
      with Suc.prems(5) have lw: "length w < n" by (simp add: cs w_def)
      have "fst (run_state (replace_loop ns' a ((d0 @ d1 @ u @ v) @ [] @ w) (length (d0 @ d1 @ u @ v))) h1) =
          [] @ replace_from n R (rev ((d0 @ d1 @ u @ v) @ [])) w"
        using h1 lw ns'
        by (intro Suc.IH) (simp_all add: bh)
      then have rest: "fst (run_state (replace_loop ns' a ?s (length (behind y))) h1) =
          replace_from n R (behind y) (ahead y)"
        by (simp add: bh cs w_def add_ac)
      have "replace_from (Suc n) R (rev (d0 @ d1)) cs = u @ replace_from n R (behind y) (ahead y)"
        using Some xy False by (simp add: x cs)
      then have pure: "d1 @ replace_from (Suc n) R (rev (d0 @ d1)) cs =
          (d1 @ u) @ replace_from n R (behind y) (ahead y)"
        by (simp del: replace_from.simps)
      have "run_state (if between x y = []
          then do { obj \<leftarrow> object a; set_lastIndex a (Suc (lastIndex obj)) }
          else State_Monad.return ()) h1 = ((), h1)"
        using bt False by simp
      from replace_loop_step[OF run1 this, of ns' "length d0"]
      show ?thesis
        unfolding ns pure pre rest .
    next
      case True
      define h2 where "h2 = h1[a := (h1 ! a)\<lparr>lastIndex := Suc (length (behind y))\<rparr>]"
      have h2: "a < length h2" "source (h2 ! a) = R" "\<not> sticky (h2 ! a)"
        "lastIndex (h2 ! a) = Suc (length (behind y))"
        using h1 by (simp_all add: h2_def)
      have bump: "run_state (do { obj \<leftarrow> object a; set_lastIndex a (Suc (lastIndex obj)) }) h1 =
          ((), h2)"
        using h1 by (simp add: run_object run_set_lastIndex h2_def)
      have rest: "fst (run_state (replace_loop ns' a ?s (length (behind y))) h2) =
          (case w of [] \<Rightarrow> [] | c # w' \<Rightarrow> c # replace_from n R (c # behind y) w')"
      proof (cases w)
        case Nil
        from ns' obtain ns'' where ns'': "ns' = Suc ns''" by (cases ns') auto
        have "length ?s < lastIndex (h2 ! a)"
          using h2(4) by (simp add: bh cs True Nil w_def[symmetric])
        then have "fst (run_state (RegExpBuiltinExec a ?s) h2) = None"
          using h2 assms by (simp add: run_exec Let_def)
        then obtain h3 where "run_state (RegExpBuiltinExec a ?s) h2 = (None, h3)"
          by (cases "run_state (RegExpBuiltinExec a ?s) h2") auto
        from replace_loop_stop[OF this, of ns'' "length (behind y)"]
        show ?thesis
          using Nil by (simp add: ns'' bh cs True w_def[symmetric] del: replace_loop.simps)
      next
        case (Cons c w')
        have "fst (run_state (replace_loop ns' a ((d0 @ d1 @ u) @ [c] @ w') (length (d0 @ d1 @ u))) h2) =
            [c] @ replace_from n R (rev ((d0 @ d1 @ u) @ [c])) w'"
          using h2 Suc.prems(5) ns' Cons
          by (intro Suc.IH) (simp_all add: bh cs True w_def[symmetric])
        then show ?thesis
          using Cons by (simp add: bh cs True w_def[symmetric] add_ac)
      qed
      have "replace_from (Suc n) R (rev (d0 @ d1)) cs =
          u @ (case w of [] \<Rightarrow> [] | c # w' \<Rightarrow> c # replace_from n R (c # behind y) w')"
        using Some xy True by (simp add: x cs w_def)
      then have pure: "d1 @ replace_from (Suc n) R (rev (d0 @ d1)) cs =
          (d1 @ u) @ (case w of [] \<Rightarrow> [] | c # w' \<Rightarrow> c # replace_from n R (c # behind y) w')"
        by (simp del: replace_from.simps)
      have "run_state (if between x y = []
          then do { obj \<leftarrow> object a; set_lastIndex a (Suc (lastIndex obj)) }
          else State_Monad.return ()) h1 = ((), h2)"
        using bt True bump by simp
      from replace_loop_step[OF run1 this, of ns' "length d0"]
      show ?thesis
        unfolding ns pure pre rest .
    qed
  qed
qed

lemma returns_replace_literal: "returns (replace_literal s R) (re_replace R s)"
proof (cases "global R")
  case False
  then show ?thesis
    by (simp add: returns_def replace_literal_def run_RegExpCreate String_replace_def run_object
        exec_fresh re_replace_def split: prod.splits)
next
  case True
  show ?thesis unfolding returns_def
  proof
    fix h
    define h1 where "h1 = (h @ [\<lparr>source = R, sticky = False, lastIndex = 0\<rparr>])[length h :=
      ((h @ [\<lparr>source = R, sticky = False, lastIndex = 0\<rparr>]) ! length h)\<lparr>lastIndex := 0\<rparr>]"
    have "fst (run_state (replace_loop (length s + 2) (length h) ([] @ [] @ s) (length ([]::jsstring))) h1) =
        [] @ replace_from (Suc (length s)) R (rev ([] @ [])) s"
      by (intro replace_loop_global[OF True]) (simp_all add: h1_def)
    then have "fst (run_state (replace_loop (length s + 2) (length h) s 0) h1) =
        replace_from (Suc (length s)) R [] s"
      by (simp del: replace_loop.simps replace_from.simps)
    moreover have "run_state (replace_literal s R) h =
        run_state (replace_loop (length s + 2) (length h) s 0) h1"
      using True
      by (simp add: replace_literal_def run_RegExpCreate String_replace_def run_object
          run_set_lastIndex h1_def del: replace_loop.simps)
    ultimately show "fst (run_state (replace_literal s R) h) = re_replace R s"
      using True by (simp add: re_replace_def del: replace_loop.simps replace_from.simps)
  qed
qed

lemma split_loop_unfold:
  assumes "b < length h" and "source (h ! b) = R" and "sticky (h ! b)" and "cs \<noteq> []"
  shows "fst (run_state (split_loop (Suc n) b (d0 @ d1 @ cs) (length d0) (length (d0 @ d1))) h) =
    (case match_at R (rev (d0 @ d1)) cs of
       None \<Rightarrow>
         fst (run_state (split_loop n b (d0 @ d1 @ cs) (length d0) (Suc (length (d0 @ d1))))
           (h[b := (h ! b)\<lparr>lastIndex := 0\<rparr>]))
     | Some z \<Rightarrow>
         if min (length (behind z)) (length (d0 @ d1 @ cs)) = length d0
         then fst (run_state (split_loop n b (d0 @ d1 @ cs) (length d0) (Suc (length (d0 @ d1))))
                (h[b := (h ! b)\<lparr>lastIndex := length (behind z)\<rparr>]))
         else d1 # fst (run_state
                (split_loop n b (d0 @ d1 @ cs) (min (length (behind z)) (length (d0 @ d1 @ cs)))
                   (min (length (behind z)) (length (d0 @ d1 @ cs))))
                (h[b := (h ! b)\<lparr>lastIndex := length (behind z)\<rparr>])))"
proof -
  let ?h = "h[b := (h ! b)\<lparr>lastIndex := length (d0 @ d1)\<rparr>]"
  have h': "b < length ?h" "source (?h ! b) = R" "sticky (?h ! b)"
    "lastIndex (?h ! b) = length (d0 @ d1)"
    using assms by simp_all
  have q: "length (d0 @ d1) < length (d0 @ d1 @ cs)"
    using assms(4) by simp
  have "d0 @ d1 @ cs = (d0 @ d1) @ cs" by simp
  note ex = exec_sticky[OF h', of cs, folded this]
  show ?thesis
  proof (cases "match_at R (rev (d0 @ d1)) cs")
    case None
    with ex have "run_state (RegExpBuiltinExec b (d0 @ d1 @ cs)) ?h =
        (None, ?h[b := (?h ! b)\<lparr>lastIndex := 0\<rparr>])" by simp
    moreover have "?h[b := (?h ! b)\<lparr>lastIndex := 0\<rparr>] = h[b := (h ! b)\<lparr>lastIndex := 0\<rparr>]"
      using assms(1) by simp
    ultimately show ?thesis
      using q None by (simp add: run_set_lastIndex del: length_append append_assoc)
  next
    case (Some z)
    with ex have "run_state (RegExpBuiltinExec b (d0 @ d1 @ cs)) ?h =
        (Some (\<lparr>behind = rev (d0 @ d1), ahead = cs, captures = (\<lambda>_. None)\<rparr>, z),
         ?h[b := (?h ! b)\<lparr>lastIndex := length (behind z)\<rparr>])" by simp
    moreover have "?h[b := (?h ! b)\<lparr>lastIndex := length (behind z)\<rparr>] =
        h[b := (h ! b)\<lparr>lastIndex := length (behind z)\<rparr>]"
      using assms(1) by simp
    moreover have "take (length (d0 @ d1) - length d0) (drop (length d0) (d0 @ d1 @ cs)) = d1"
      by simp
    ultimately show ?thesis
      using q Some assms(1)
      by (simp add: run_set_lastIndex run_object Let_def split: prod.splits
          del: length_append append_assoc)
  qed
qed

lemma split_loop_end:
  "fst (run_state (split_loop n b (d0 @ d1) (length d0) (length (d0 @ d1))) h) = [d1]"
  by (cases n) simp_all

lemma split_loop_sticky:
  "\<lbrakk>b < length h; source (h ! b) = R; sticky (h ! b); 2 * length cs \<le> n\<rbrakk> \<Longrightarrow>
   fst (run_state (split_loop n b (d0 @ d1 @ cs) (length d0) (length (d0 @ d1))) h) =
   split_from R (rev d1) (rev (d0 @ d1)) cs"
proof (induction "length cs" arbitrary: cs d0 d1 n h rule: less_induct)
  case less
  show ?case
  proof (cases cs)
    case Nil
    with split_loop_end[of n b d0 d1 h] show ?thesis by simp
  next
    case (Cons c cs')
    with less.prems(4) obtain n' where n: "n = Suc n'" and n': "2 * length cs' + 1 \<le> n'"
      by (cases n) auto
    have ne: "cs \<noteq> []" using Cons by simp
    note unf = split_loop_unfold[OF less.prems(1-3) ne, of n' d0 d1, folded n]
    have skip: "fst (run_state (split_loop n' b (d0 @ d1 @ cs) (length d0) (Suc (length (d0 @ d1)))) g) =
        split_from R (c # rev d1) (c # rev (d0 @ d1)) cs'"
      if g: "b < length g" "source (g ! b) = R" "sticky (g ! b)" for g
    proof -
      have "fst (run_state (split_loop n' b (d0 @ (d1 @ [c]) @ cs') (length d0)
          (length (d0 @ (d1 @ [c])))) g) = split_from R (rev (d1 @ [c])) (rev (d0 @ (d1 @ [c]))) cs'"
        using g n' Cons by (intro less.hyps) simp_all
      then show ?thesis by (simp add: Cons)
    qed
    show ?thesis
    proof (cases "match_at R (rev (d0 @ d1)) cs")
      case None
      have "fst (run_state (split_loop n b (d0 @ d1 @ cs) (length d0) (length (d0 @ d1))) h) =
          split_from R (c # rev d1) (c # rev (d0 @ d1)) cs'"
        unfolding unf None option.case
        using less.prems(1-3) by (intro skip) simp_all
      with None show ?thesis by (simp add: Cons)
    next
      case (Some z)
      from match_at_later[OF Some] obtain v where
        v: "cs = v @ ahead z" "behind z = rev v @ rev (d0 @ d1)" by blast
      define h1 where "h1 = h[b := (h ! b)\<lparr>lastIndex := length (behind z)\<rparr>]"
      have h1: "b < length h1" "source (h1 ! b) = R" "sticky (h1 ! b)"
        using less.prems(1-3) by (simp_all add: h1_def)
      have e: "min (length (behind z)) (length (d0 @ d1 @ cs)) = length (d0 @ d1 @ v)"
        by (simp add: v)
      show ?thesis
      proof (cases "v = []")
        case False
        then obtain c0 v' where cv: "v = c0 # v'" by (cases v) auto
        have lt: "length (ahead z) < length cs" "2 * length (ahead z) \<le> n'"
          using n' Cons cv v(1) by (auto simp: )
        have "fst (run_state (split_loop n' b ((d0 @ d1 @ v) @ [] @ ahead z) (length (d0 @ d1 @ v))
            (length ((d0 @ d1 @ v) @ []))) h1) =
            split_from R (rev []) (rev ((d0 @ d1 @ v) @ [])) (ahead z)"
          using h1 lt by (intro less.hyps) simp_all
        then have rest: "fst (run_state (split_loop n' b (d0 @ d1 @ cs) (length (d0 @ d1 @ v))
            (length (d0 @ d1 @ v))) h1) = split_from R [] (behind z) (ahead z)"
          by (simp add: v)
        have ne0: "length (d0 @ d1 @ v) \<noteq> length d0" using cv by simp
        have "fst (run_state (split_loop n b (d0 @ d1 @ cs) (length d0) (length (d0 @ d1))) h) =
            d1 # split_from R [] (behind z) (ahead z)"
          unfolding unf Some option.case e h1_def[symmetric] rest if_not_P[OF ne0] ..
        moreover have "length (ahead z) < length (c # cs')"
          using lt(1) Cons by simp
        ultimately show ?thesis using Some by (simp add: Cons)
      next
        case True
        then have az: "ahead z = c # cs'" and e': "length (d0 @ d1 @ v) = length (d0 @ d1)"
          using v(1) Cons by simp_all
        show ?thesis
        proof (cases "d1 = []")
          case d1: True
          have "fst (run_state (split_loop n b (d0 @ d1 @ cs) (length d0) (length (d0 @ d1))) h) =
              split_from R (c # rev d1) (c # rev (d0 @ d1)) cs'"
            unfolding unf Some option.case e e' h1_def[symmetric]
            using d1 h1 skip[of h1] by simp
          then show ?thesis using Some az d1 by (simp add: Cons)
        next
          case d1: False
          from n' obtain n'' where n'': "n' = Suc n''" and n2: "2 * length cs' \<le> n''"
            by (cases n') auto
          have ne1: "length (d0 @ d1) \<noteq> length d0" using d1 by simp
          note unf2 = split_loop_unfold[OF h1 ne, of n'' "d0 @ d1" "[]", folded n'', simplified]
          have e2: "min (length (behind z)) (length d0 + (length d1 + length cs)) =
              length d0 + length d1"
            using e e' by simp
          have h2: "b < length (h1[b := (h1 ! b)\<lparr>lastIndex := length (behind z)\<rparr>])"
            "source (h1[b := (h1 ! b)\<lparr>lastIndex := length (behind z)\<rparr>] ! b) = R"
            "sticky (h1[b := (h1 ! b)\<lparr>lastIndex := length (behind z)\<rparr>] ! b)"
            using h1 by simp_all
          have "fst (run_state (split_loop n'' b ((d0 @ d1) @ [c] @ cs') (length (d0 @ d1))
              (length ((d0 @ d1) @ [c]))) (h1[b := (h1 ! b)\<lparr>lastIndex := length (behind z)\<rparr>])) =
              split_from R (rev [c]) (rev ((d0 @ d1) @ [c])) cs'"
            using h2 n2 Cons by (intro less.hyps) simp_all
          then have inner: "fst (run_state (split_loop n' b (d0 @ d1 @ cs) (length d0 + length d1)
              (length d0 + length d1)) h1) = split_from R [c] (c # rev (d0 @ d1)) cs'"
            using unf2 Some e2 by (simp add: Cons)
          have "fst (run_state (split_loop n b (d0 @ d1 @ cs) (length d0) (length (d0 @ d1))) h) =
              d1 # split_from R [c] (c # rev (d0 @ d1)) cs'"
            unfolding unf Some option.case e e' h1_def[symmetric]
            using ne1 inner by simp
          then show ?thesis using Some az d1 by (simp add: Cons)
        qed
      qed
    qed
  qed
qed

lemma returns_split_literal: "returns (split_literal s R) (re_split R s)"
  unfolding returns_def
proof
  fix h
  define h1 where "h1 = h @ [\<lparr>source = R, sticky = False, lastIndex = 0\<rparr>]"
  define h2 where "h2 = h1 @ [\<lparr>source = R, sticky = True, lastIndex = 0\<rparr>]"
  have run: "run_state (split_literal s R) h =
      (if s = []
       then run_state (do { z \<leftarrow> RegExpBuiltinExec (length h1) s;
              State_Monad.return (if z = None then [[]] else []) }) h2
       else run_state (split_loop (2 * length s) (length h1) s 0 0) h2)"
    by (simp add: split_literal_def run_RegExpCreate String_split_def run_object h1_def h2_def
        del: split_loop.simps)
  show "fst (run_state (split_literal s R) h) = re_split R s"
  proof (cases "s = []")
    case True
    have "run_state (RegExpBuiltinExec (length h1) ([] @ [])) h2 =
      (case match_at R (rev []) [] of
         None \<Rightarrow> (None, h2[length h1 := (h2 ! length h1)\<lparr>lastIndex := 0\<rparr>])
       | Some z \<Rightarrow> (Some (\<lparr>behind = rev [], ahead = [], captures = (\<lambda>_. None)\<rparr>, z),
           h2[length h1 := (h2 ! length h1)\<lparr>lastIndex := length (behind z)\<rparr>]))"
      by (intro exec_sticky) (simp_all add: h2_def)
    then show ?thesis
      unfolding run using True by (simp add: re_split_def split: option.splits)
  next
    case False
    have "fst (run_state (split_loop (2 * length s) (length h1) ([] @ [] @ s) (length ([]::jsstring))
        (length ([] @ [] :: jsstring))) h2) = split_from R (rev []) (rev ([] @ [])) s"
      by (intro split_loop_sticky) (simp_all add: h2_def)
    then show ?thesis
      unfolding run using False by (simp add: re_split_def del: split_loop.simps)
  qed
qed

lemma returns_test:
  "returns (f (re_test R s)) w \<Longrightarrow> returns (State_Monad.bind (test_literal R s) f) w"
  by (rule returns_bind[OF returns_test_literal])

lemma returns_match:
  "returns (f (re_match R s)) w \<Longrightarrow> returns (State_Monad.bind (match_literal s R) f) w"
  by (rule returns_bind[OF returns_match_literal])

lemma returns_replace:
  "returns (f (re_replace R s)) w \<Longrightarrow> returns (State_Monad.bind (replace_literal s R) f) w"
  by (rule returns_bind[OF returns_replace_literal])

lemma returns_split:
  "returns (f (re_split R s)) w \<Longrightarrow> returns (State_Monad.bind (split_literal s R) f) w"
  by (rule returns_bind[OF returns_split_literal])

lemma returns_if:
  "(b \<Longrightarrow> returns c w) \<Longrightarrow> (\<not> b \<Longrightarrow> returns d w) \<Longrightarrow> returns (if b then c else d) w"
  by simp

lemmas returns_intros =
  returns_test returns_match returns_replace returns_split returns_if returns_return
  returns_test_literal returns_match_literal returns_replace_literal returns_split_literal

lemma returns_approve_test: "returns (approve_test_st s) (approve_test s)"
  unfolding approve_test_st_def approve_test_def
  by (intro returns_intros) simp_all

lemma returns_approve_extract: "returns (approve_extract_st s) (approve_extract s)"
  unfolding approve_extract_st_def approve_extract_def Let_def
  by (intro returns_intros) simp_all

lemma returns_deny_test: "returns (deny_test_st s) (deny_test s)"
  unfolding deny_test_st_def deny_test_def
  by (intro returns_intros)

lemma returns_deny_extract: "returns (deny_extract_st s) (deny_extract s)"
  unfolding deny_extract_st_def deny_extract_def Let_def
  by (intro returns_intros) simp_all

lemma returns_approvals_list_test: "returns (approvals_list_test_st s) (approvals_list_test s)"
  unfolding approvals_list_test_st_def approvals_list_test_def
  by (intro returns_intros)

lemma returns_approvals_list_extract:
  "returns (approvals_list_extract_st s) (approvals_list_extract s)"
  unfolding approvals_list_extract_st_def approvals_list_extract_def Let_def
  by (intro returns_intros) simp_all

lemmas returns_literals =
  returns_test_literal returns_match_literal returns_replace_literal returns_split_literal

lemma returns_approvals_request_test:
  "returns (approvals_request_test_st s) (approvals_request_test s)"
  unfolding approvals_request_test_st_def approvals_request_test_def
  by (intro returns_intros) (simp_all add: returns_literals)

lemma returns_bind_if:
  assumes "b \<Longrightarrow> returns (State_Monad.bind c f) w"
    and "\<not> b \<Longrightarrow> returns (State_Monad.bind d f) w"
  shows "returns (State_Monad.bind (if b then c else d) f) w"
  using assms by simp

lemma returns_bind_return:
  "returns (f v) w \<Longrightarrow> returns (State_Monad.bind (State_Monad.return v) f) w"
  by simp

lemma returns_approvals_request_extract:
  "returns (approvals_request_extract_st s) (approvals_request_extract s)"
  unfolding approvals_request_extract_st_def approvals_request_extract_def Let_def
  by (cases "re_match re_amount s")
     (auto intro!: returns_intros returns_bind_if returns_bind_return)

lemma returns_knowledge_create_test:
  "returns (knowledge_create_test_st s) (knowledge_create_test s)"
  unfolding knowledge_create_test_st_def knowledge_create_test_def
  by (intro returns_intros) simp_all

lemma returns_knowledge_create_extract:
  "returns (knowledge_create_extract_st s) (knowledge_create_extract s)"
  unfolding knowledge_create_extract_st_def knowledge_create_extract_def Let_def
  by (auto intro!: returns_intros split: option.splits)

lemma returns_knowledge_list_test: "returns (knowledge_list_test_st s) (knowledge_list_test s)"
  unfolding knowledge_list_test_st_def knowledge_list_test_def
  by (intro returns_intros)

lemma returns_knowledge_list_extract:
  "returns (knowledge_list_extract_st s) (knowledge_list_extract s)"
  unfolding knowledge_list_extract_st_def knowledge_list_extract_def
  by (intro returns_intros) simp_all

lemma returns_knowledge_search_test:
  "returns (knowledge_search_test_st s) (knowledge_search_test s)"
  unfolding knowledge_search_test_st_def knowledge_search_test_def
  by (intro returns_intros) simp_all

lemma returns_knowledge_search_extract:
  "returns (knowledge_search_extract_st s) (knowledge_search_extract s)"
  unfolding knowledge_search_extract_st_def knowledge_search_extract_def Let_def
  by (auto intro!: returns_intros returns_bind_if returns_bind_return)

lemma returns_requests_list_test: "returns (requests_list_test_st s) (requests_list_test s)"
  unfolding requests_list_test_st_def requests_list_test_def
  by (intro returns_intros)

lemma returns_requests_list_extract:
  "returns (requests_list_extract_st s) (requests_list_extract s)"
  unfolding requests_list_extract_st_def requests_list_extract_def Let_def
  by (intro returns_intros) simp_all

lemma returns_requests_create_test:
  "returns (requests_create_test_st s) (requests_create_test s)"
  unfolding requests_create_test_st_def requests_create_test_def
  by (intro returns_intros) (simp_all add: returns_literals)

lemma returns_requests_create_extract:
  "returns (requests_create_extract_st s) (requests_create_extract s)"
  unfolding requests_create_extract_st_def requests_create_extract_def Let_def
  by (auto intro!: returns_intros returns_bind_if returns_bind_return)

lemma returns_status_test: "returns (status_test_st s) (status_test s)"
  unfolding status_test_st_def status_test_def
  by (intro returns_intros)

lemma returns_status_extract: "returns (status_extract_st s) (status_extract s)"
  unfolding status_extract_st_def status_extract_def
  by (intro returns_intros) simp_all

lemma returns_first_match:
  assumes "list_all2 (\<lambda>r' r. (\<forall>s. returns (test_st r' s) (test r s)) \<and>
      intent_st r' = intent r \<and> (\<forall>s. returns (extractor_st r' s) (extractor r s))) rs' rs"
  shows "returns (first_match_st rs' s) (first_match rs s)"
  using assms
proof (induction rs' rs rule: list_all2_induct)
  case Nil
  show ?case by (simp add: returns_return)
next
  case (Cons r' rs' r rs)
  then have t: "returns (test_st r' s) (test r s)"
    and e: "returns (extractor_st r' s) (extractor r s)" and i: "intent_st r' = intent r"
    by simp_all
  show ?case
    unfolding first_match_st.simps first_match.simps i
    by (rule returns_bind[OF t], rule returns_if, rule returns_bind[OF e])
       (simp_all add: returns_return Cons.IH)
qed

lemma returns_INTENT_RULES:
  "list_all2 (\<lambda>r' r. (\<forall>s. returns (test_st r' s) (test r s)) \<and>
      intent_st r' = intent r \<and> (\<forall>s. returns (extractor_st r' s) (extractor r s)))
     INTENT_RULES_st INTENT_RULES"
  unfolding INTENT_RULES_st_def INTENT_RULES_def
  by (simp add: returns_approve_test returns_approve_extract returns_deny_test returns_deny_extract
      returns_approvals_list_test returns_approvals_list_extract returns_approvals_request_test
      returns_approvals_request_extract returns_knowledge_create_test returns_knowledge_create_extract
      returns_knowledge_list_test returns_knowledge_list_extract returns_knowledge_search_test
      returns_knowledge_search_extract returns_requests_list_test returns_requests_list_extract
      returns_requests_create_test returns_requests_create_extract returns_status_test returns_status_extract)

lemma returns_detectIntent: "returns (detectIntent_st input) (detectIntent input)"
proof -
  note fm = returns_first_match[OF returns_INTENT_RULES, of "trim input"]
  show ?thesis
    unfolding detectIntent_st_def detectIntent_def Let_def
    by (rule returns_bind[OF fm])
       (auto intro!: returns_intros split: option.splits sum.splits)
qed

text \<open>
  Claim C9. For every input \<open>s\<close>, classifying \<open>s\<close> twice gives the same result both times,
  on whatever heap of regular expression objects the first call starts and although the
  second call starts on the heap that the first one leaves; that result is the value of
  the function \<open>detectIntent\<close> of the sections before. Every regular expression object that
  a call uses is created by that call, and its \<open>lastIndex\<close> is 0 when it is first read.
\<close>

theorem detectIntent_deterministic:
  "fst (detectIntent_twice s h) = snd (detectIntent_twice s h) \<and>
   fst (detectIntent_twice s h) = detectIntent s"
  using returns_detectIntent[of s]
  by (simp add: detectIntent_twice_def returns_def split: prod.splits) (metis fst_conv)

end
